theory Spec2Isabelle
  imports Complex_Main "HOL-Library.Word"
begin

section \<open>Data model of the offers module\<close>

text \<open>
  The module under verification is the TypeScript file that exports \<open>segmentId\<close>,
  \<open>createSegments\<close>, \<open>createOffers\<close> and the generator of synthetic segments and
  offers. Its string literal unions become datatypes, its object types records.
\<close>

datatype SegmentKind = olc_8 | olc_6 | purchase | request

datatype SegmentInterval = minute | hour | day | week | month

definition SegmentKinds :: "SegmentKind list" where
  "SegmentKinds = [olc_8, olc_6, purchase, request]"

definition SegmentIntervals :: "SegmentInterval list" where
  "SegmentIntervals = [minute, hour, day, week, month]"

text \<open>The string a kind or an interval is at run time (the literal of the union type).\<close>

fun kind_string :: "SegmentKind \<Rightarrow> string" where
  "kind_string olc_8 = ''olc_8''"
| "kind_string olc_6 = ''olc_6''"
| "kind_string purchase = ''purchase''"
| "kind_string request = ''request''"

fun interval_string :: "SegmentInterval \<Rightarrow> string" where
  "interval_string minute = ''minute''"
| "interval_string hour = ''hour''"
| "interval_string day = ''day''"
| "interval_string week = ''week''"
| "interval_string month = ''month''"

record Segment =
  interval :: SegmentInterval
  kind :: SegmentKind
  "value" :: string

record Offer =
  segments :: "Segment list"
  notificationZone :: string
  notificationContent :: string
  notificationTarget :: string
  maximumBidCents :: int

definition DEFAULT_CUSTOMER_ID :: int where
  "DEFAULT_CUSTOMER_ID = 0"

definition MAX_OFFERS_PER_BATCH :: nat where
  "MAX_OFFERS_PER_BATCH = 500"

subsection \<open>segmentId\<close>

text \<open>
  \<open>stringHash\<close> is the default export of the third-party package \<open>string-hash\<close>, which
  is not among the sources. Every definition that reaches it takes the hash as its first
  parameter, a function from strings to integers (a JavaScript number holding an integer);
  the function of the package itself is \<open>stringHash_package\<close> below.

  \<^verbatim>\<open>
  export const segmentId = ({ interval, kind, value }: Segment) =>
    stringHash(`${interval}-${kind}-${value}`);
  \<close>
\<close>

type_synonym string_hash = "string \<Rightarrow> int"

definition segmentId :: "string_hash \<Rightarrow> Segment \<Rightarrow> int" where
  "segmentId stringHash s =
     stringHash (interval_string (interval s) @ ''-'' @ kind_string (kind s) @ ''-'' @ value s)"

text \<open>
  A concrete hash for evaluating the definitions on examples: the sum of the character
  codes.
\<close>

definition code_sum_hash :: string_hash where
  "code_sum_hash s = int (sum_list (map of_char s))"

text \<open>
  The function that the package \<open>string-hash\<close> (version 1.1.3) exports:

  \<^verbatim>\<open>
  function hash(str) {
    var hash = 5381,
        i    = str.length;

    while(i) {
      hash = (hash * 33) ^ str.charCodeAt(--i);
    }

    return hash >>> 0;
  }
  \<close>

  The loop reads the string from its last character to its first. The operator \<open>^\<close>
  takes its operands modulo \<open>2^32\<close> and the product \<open>hash * 33\<close> of a 32-bit integer is
  exact in double precision, so the accumulator is a 32-bit word; \<open>>>> 0\<close> reads the word
  as an unsigned integer. Strings are of 8-bit characters here, \<open>charCodeAt\<close> being the
  character code.
\<close>

definition stringHash_package :: string_hash where
  "stringHash_package str =
     uint (foldr (\<lambda>c hash. xor (hash * 33) (word_of_nat (of_char c))) str (5381 :: 32 word))"

section \<open>The batched writers\<close>

subsection \<open>Collaborators: the statement builder and the database\<close>

text \<open>A parameter value of a statement: a JavaScript number (holding an integer) or a string.\<close>

datatype sql_value = Num int | Str string

text \<open>
  Modelled from the spec: the class \<open>MultiReplace\<close> of \<open>@/data/sqlbuilder\<close> is not among
  the sources. The spec describes it as a builder for one target relation and a fixed
  ordered list of column names: \<open>append\<close> adds one row, \<open>clear\<close> discards all accumulated
  rows without altering relation or columns, and building gives one multi-row replace
  statement together with its flattened parameter list. The statement text is represented
  by what it names: the relation, the columns and the number of row tuples.
\<close>

record MultiReplace =
  table :: string
  columns :: "string list"
  tuples :: "sql_value list list"

definition new_MultiReplace :: "string \<Rightarrow> string list \<Rightarrow> MultiReplace" where
  "new_MultiReplace t cs = \<lparr>table = t, columns = cs, tuples = []\<rparr>"

definition MultiReplace_append :: "MultiReplace \<Rightarrow> sql_value list \<Rightarrow> MultiReplace" where
  "MultiReplace_append b vs = b\<lparr>tuples := tuples b @ [vs]\<rparr>"

definition MultiReplace_clear :: "MultiReplace \<Rightarrow> MultiReplace" where
  "MultiReplace_clear b = b\<lparr>tuples := []\<rparr>"

datatype statement = ReplaceInto (relation: string) (column_names: "string list") (row_count: nat)

definition MultiReplace_sql :: "MultiReplace \<Rightarrow> statement" where
  "MultiReplace_sql b = ReplaceInto (table b) (columns b) (length (tuples b))"

definition MultiReplace_params :: "MultiReplace \<Rightarrow> sql_value list" where
  "MultiReplace_params b = concat (tuples b)"

text \<open>
  Modelled from the spec: \<open>Exec\<close> of \<open>@/data/client\<close> is not among the sources. The spec
  gives it as \<open>Exec(config, statementText, ...params) -> void\<close>, failing with a
  \<open>StatementError\<close>. The connection configuration and the server behind it are one
  parameter, the \<open>database\<close>: it decides, from the statements issued so far and the
  statement at hand, whether the statement succeeds. Every call is recorded, with its
  outcome, in a trace.
\<close>

datatype error = StatementError

datatype exec_call = Exec_call (call_sql: statement) (call_params: "sql_value list")

type_synonym trace = "(exec_call \<times> bool) list"

type_synonym database = "trace \<Rightarrow> exec_call \<Rightarrow> bool"

definition Exec :: "database \<Rightarrow> statement \<Rightarrow> sql_value list \<Rightarrow> trace \<Rightarrow> (error + unit) \<times> trace" where
  "Exec db text ps tr =
     (let ok = db tr (Exec_call text ps)
      in (if ok then Inr () else Inl StatementError, tr @ [(Exec_call text ps, ok)]))"

text \<open>
  \<open>Promise.all\<close> over the two writes of a flush: both have been issued when it is called;
  it is fulfilled when both are, and rejected when one is.
\<close>

definition Promise_all :: "error + unit \<Rightarrow> error + unit \<Rightarrow> error + unit" where
  "Promise_all r1 r2 =
     (case r1 of Inl e \<Rightarrow> Inl e | Inr _ \<Rightarrow> (case r2 of Inl e \<Rightarrow> Inl e | Inr _ \<Rightarrow> Inr ()))"

subsection \<open>JSON.stringify on an array of integers\<close>

text \<open>
  \<open>JSON.stringify\<close> of an array of integer numbers: the decimal numerals, separated by
  commas, between square brackets, without white space.
\<close>

definition digit_char :: "nat \<Rightarrow> char" where
  "digit_char d = char_of (of_char (CHR ''0'') + d)"

fun nat_string :: "nat \<Rightarrow> string" where
  "nat_string n = (if n < 10 then [digit_char n] else nat_string (n div 10) @ [digit_char (n mod 10)])"

declare nat_string.simps [simp del]

definition int_string :: "int \<Rightarrow> string" where
  "int_string i = (if i < 0 then CHR ''-'' # nat_string (nat (- i)) else nat_string (nat i))"

fun join_comma :: "string list \<Rightarrow> string" where
  "join_comma [] = []"
| "join_comma [s] = s"
| "join_comma (s # t # ss) = s @ CHR '','' # join_comma (t # ss)"

definition JSON_stringify :: "int list \<Rightarrow> string" where
  "JSON_stringify xs = CHR ''['' # join_comma (map int_string xs) @ '']''"

subsection \<open>createSegments\<close>

text \<open>The values \<open>createSegments\<close> appends for one segment.\<close>

definition segment_values :: "string_hash \<Rightarrow> Segment \<Rightarrow> sql_value list" where
  "segment_values stringHash segment =
     [Num (segmentId stringHash segment), Str (interval_string (interval segment)),
      Str (kind_string (kind segment)), Str (value segment)]"

definition segments_columns :: "string list" where
  "segments_columns = [''segment_id'', ''valid_interval'', ''filter_kind'', ''filter_value'']"

definition createSegments ::
  "string_hash \<Rightarrow> database \<Rightarrow> Segment list \<Rightarrow> trace \<Rightarrow> (error + unit) \<times> trace" where
  "createSegments stringHash db segs tr =
     (let stmt = foldl (\<lambda>b segment. MultiReplace_append b (segment_values stringHash segment))
                   (new_MultiReplace ''segments'' segments_columns) segs
      in Exec db (MultiReplace_sql stmt) (MultiReplace_params stmt) tr)"

subsection \<open>createOffers\<close>

text \<open>The values \<open>createOffers\<close> appends for one offer.\<close>

definition offer_values :: "string_hash \<Rightarrow> int \<Rightarrow> Offer \<Rightarrow> sql_value list" where
  "offer_values stringHash customerId offer =
     [Num customerId, Str (notificationZone offer),
      Str (JSON_stringify (map (segmentId stringHash) (segments offer))),
      Str (notificationContent offer), Str (notificationTarget offer),
      Num (maximumBidCents offer)]"

definition offers_columns :: "string list" where
  "offers_columns = [''customer_id'', ''notification_zone'', ''segment_ids'',
     ''notification_content'', ''notification_target'', ''maximum_bid_cents'']"

text \<open>
  The variables of one \<open>createOffers\<close> call: \<open>stmt\<close>, \<open>numOffers\<close> and \<open>segments\<close>
  (here \<open>pendingSegments\<close>, as \<open>segments\<close> is the field of an offer).
\<close>

record batch_state =
  stmt :: MultiReplace
  numOffers :: nat
  pendingSegments :: "Segment list"

text \<open>
  \<^verbatim>\<open>
  const commitBatch = async () => {
    await Promise.all([
      Exec(config, stmt.sql(), ...stmt.params()),
      createSegments(config, segments),
    ]);
    stmt.clear(); segments = []; numOffers = 0;
  };
  \<close>
  Both elements of the array are evaluated, the offers statement first, before
  \<open>Promise.all\<close> is called: both writes are issued whatever the outcome of the first.
  When the awaited promise is rejected the three assignments are not reached.
\<close>

definition commitBatch ::
  "string_hash \<Rightarrow> database \<Rightarrow> batch_state \<Rightarrow> trace \<Rightarrow> (error + unit) \<times> batch_state \<times> trace" where
  "commitBatch stringHash db st tr =
     (let (r1, tr1) = Exec db (MultiReplace_sql (stmt st)) (MultiReplace_params (stmt st)) tr;
          (r2, tr2) = createSegments stringHash db (pendingSegments st) tr1
      in case Promise_all r1 r2 of
           Inl e \<Rightarrow> (Inl e, st, tr2)
         | Inr _ \<Rightarrow> (Inr (), \<lparr>stmt = MultiReplace_clear (stmt st), numOffers = 0,
                               pendingSegments = []\<rparr>, tr2))"

text \<open>The \<open>for\<close> loop over the offers; a rejected flush ends it with the state as it is.\<close>

fun createOffers_loop ::
  "string_hash \<Rightarrow> database \<Rightarrow> int \<Rightarrow> Offer list \<Rightarrow> batch_state \<Rightarrow> trace
     \<Rightarrow> (error + unit) \<times> batch_state \<times> trace" where
  "createOffers_loop stringHash db customerId [] st tr = (Inr (), st, tr)"
| "createOffers_loop stringHash db customerId (offer # rest) st tr =
     (let st1 = \<lparr>stmt = MultiReplace_append (stmt st) (offer_values stringHash customerId offer),
                 numOffers = numOffers st + 1,
                 pendingSegments = pendingSegments st @ segments offer\<rparr>
      in if numOffers st1 \<ge> MAX_OFFERS_PER_BATCH then
           (case commitBatch stringHash db st1 tr of
              (Inl e, st2, tr2) \<Rightarrow> (Inl e, st2, tr2)
            | (Inr _, st2, tr2) \<Rightarrow> createOffers_loop stringHash db customerId rest st2 tr2)
         else createOffers_loop stringHash db customerId rest st1 tr)"

text \<open>
  \<open>createOffers(config, offers, customerId = DEFAULT_CUSTOMER_ID)\<close>: an omitted third
  argument is \<open>None\<close>. The result is the outcome of the promise, the variables as they are
  when it settles, and the trace of the statements issued.
\<close>

definition createOffers ::
  "string_hash \<Rightarrow> database \<Rightarrow> Offer list \<Rightarrow> int option
     \<Rightarrow> (error + unit) \<times> batch_state \<times> trace" where
  "createOffers stringHash db offers customerId_arg =
     (let customerId = (case customerId_arg of None \<Rightarrow> DEFAULT_CUSTOMER_ID | Some c \<Rightarrow> c);
          st0 = \<lparr>stmt = new_MultiReplace ''offers'' offers_columns, numOffers = 0,
                 pendingSegments = []\<rparr>
      in case createOffers_loop stringHash db customerId offers st0 [] of
           (Inl e, st, tr) \<Rightarrow> (Inl e, st, tr)
         | (Inr _, st, tr) \<Rightarrow>
             if numOffers st > 0 then commitBatch stringHash db st tr else (Inr (), st, tr))"

section \<open>Specification of a run of createOffers\<close>

text \<open>
  The definitions of this section are not translations of source code: they state what a
  run is expected to do, and the theorems compare \<open>createOffers\<close> with them.
  \<open>batches n xs\<close> cuts a list into consecutive pieces of length \<open>n\<close>, the last one
  possibly shorter.
\<close>

function batches :: "nat \<Rightarrow> 'a list \<Rightarrow> 'a list list" where
  "batches n xs = (if n = 0 \<or> xs = [] then [] else take n xs # batches n (drop n xs))"
  by pat_completeness auto
termination
  by (relation "measure (\<lambda>(n, xs). length xs)") auto

declare batches.simps [simp del]

text \<open>The two statements of the flush of one batch of offers.\<close>

definition offers_call :: "string_hash \<Rightarrow> int \<Rightarrow> Offer list \<Rightarrow> exec_call" where
  "offers_call stringHash customerId batch =
     Exec_call (ReplaceInto ''offers'' offers_columns (length batch))
       (concat (map (offer_values stringHash customerId) batch))"

definition segments_call :: "string_hash \<Rightarrow> Segment list \<Rightarrow> exec_call" where
  "segments_call stringHash segs =
     Exec_call (ReplaceInto ''segments'' segments_columns (length segs))
       (concat (map (segment_values stringHash) segs))"

definition flush_calls :: "string_hash \<Rightarrow> int \<Rightarrow> Offer list \<Rightarrow> exec_call list" where
  "flush_calls stringHash customerId batch =
     [offers_call stringHash customerId batch,
      segments_call stringHash (concat (map segments batch))]"

text \<open>
  The variables of \<open>createOffers\<close> when the offers of \<open>batch\<close> have been appended since
  the last flush.
\<close>

definition state_of :: "string_hash \<Rightarrow> int \<Rightarrow> Offer list \<Rightarrow> batch_state" where
  "state_of stringHash customerId batch =
     \<lparr>stmt = \<lparr>table = ''offers'', columns = offers_columns,
               tuples = map (offer_values stringHash customerId) batch\<rparr>,
      numOffers = length batch,
      pendingSegments = concat (map segments batch)\<rparr>"

text \<open>
  Flushing a list of batches in order, stopping at the first flush with a failed write:
  the result is the batch whose flush failed, if any, and the trace.
\<close>

fun run_flushes ::
  "string_hash \<Rightarrow> database \<Rightarrow> int \<Rightarrow> Offer list list \<Rightarrow> trace \<Rightarrow> Offer list option \<times> trace" where
  "run_flushes stringHash db customerId [] tr = (None, tr)"
| "run_flushes stringHash db customerId (b # bs) tr =
     (let c1 = offers_call stringHash customerId b;
          ok1 = db tr c1;
          c2 = segments_call stringHash (concat (map segments b));
          ok2 = db (tr @ [(c1, ok1)]) c2;
          tr2 = tr @ [(c1, ok1), (c2, ok2)]
      in if ok1 \<and> ok2 then run_flushes stringHash db customerId bs tr2 else (Some b, tr2))"

text \<open>What \<open>createOffers\<close> returns after such a sequence of flushes.\<close>

definition outcome_of ::
  "string_hash \<Rightarrow> int \<Rightarrow> Offer list option \<times> trace \<Rightarrow> (error + unit) \<times> batch_state \<times> trace" where
  "outcome_of stringHash customerId r =
     (case r of
        (None, tr) \<Rightarrow> (Inr (), state_of stringHash customerId [], tr)
      | (Some b, tr) \<Rightarrow> (Inl StatementError, state_of stringHash customerId b, tr))"

text \<open>The customer id a call uses: the argument, or the default when it is omitted.\<close>

definition customerId_of :: "int option \<Rightarrow> int" where
  "customerId_of customerId_arg = (case customerId_arg of None \<Rightarrow> DEFAULT_CUSTOMER_ID | Some c \<Rightarrow> c)"

text \<open>
  Reading a trace: the statements issued against one relation, those of them that
  succeeded, the rows a statement carries (its parameters cut into rows of as many values
  as it has columns), and whether a list of statements alternates between an offers
  statement and a segments statement.
\<close>

definition writes_to :: "string \<Rightarrow> trace \<Rightarrow> exec_call list" where
  "writes_to rel tr = filter (\<lambda>c. relation (call_sql c) = rel) (map fst tr)"

definition call_rows :: "exec_call \<Rightarrow> sql_value list list" where
  "call_rows c = batches (length (column_names (call_sql c))) (call_params c)"

fun paired :: "exec_call list \<Rightarrow> bool" where
  "paired [] = True"
| "paired [c] = False"
| "paired (c1 # c2 # cs) =
     (relation (call_sql c1) = ''offers'' \<and> relation (call_sql c2) = ''segments'' \<and> paired cs)"

definition committed :: "string \<Rightarrow> trace \<Rightarrow> exec_call list" where
  "committed rel tr = map fst (filter (\<lambda>(c, ok). ok \<and> relation (call_sql c) = rel) tr)"

text \<open>
  Concrete values for evaluating the writers on examples: a database that accepts every
  statement, one that accepts the statements on the offers relation only, three segments
  and two offers that share the second of them.
\<close>

definition accept_all :: database where
  "accept_all tr c = True"

definition accept_offers_only :: database where
  "accept_offers_only tr c = (relation (call_sql c) = ''offers'')"

definition segment1 :: Segment where
  "segment1 = \<lparr>interval = day, kind = purchase, value = ''Acme''\<rparr>"
definition segment2 :: Segment where
  "segment2 = \<lparr>interval = hour, kind = olc_8, value = ''87G8Q2JM''\<rparr>"
definition segment3 :: Segment where
  "segment3 = \<lparr>interval = week, kind = request, value = ''acme.com''\<rparr>"

definition offerA :: Offer where
  "offerA = \<lparr>segments = [segment1, segment2], notificationZone = ''POLYGON((0 0,0 1,1 1,1 0,0 0))'',
     notificationContent = ''10% off at Acme'', notificationTarget = ''https://acme.com/s2cellular?offerId=7'',
     maximumBidCents = 5\<rparr>"

definition offerB :: Offer where
  "offerB = \<lparr>segments = [segment2, segment3], notificationZone = ''POLYGON((0 0,0 1,1 1,1 0,0 0))'',
     notificationContent = ''25% off at Acme'', notificationTarget = ''https://acme.com/s2cellular?offerId=8'',
     maximumBidCents = 14\<rparr>"

text \<open>
  Modelled from the spec: the relations are not among the sources. The spec gives
  \<open>segments(segment_id PK, valid_interval, filter_kind, filter_value)\<close> and says of the
  statement the builder renders that on primary-key conflict an existing row is replaced by
  the new row's values. A relation is a map from the key, the first column, to the row;
  the rows of a statement are applied in order.
\<close>

definition replace_into ::
  "(sql_value \<rightharpoonup> sql_value list) \<Rightarrow> sql_value list list \<Rightarrow> (sql_value \<rightharpoonup> sql_value list)" where
  "replace_into rel rows =
     foldl (\<lambda>r row. case row of [] \<Rightarrow> r | key # _ \<Rightarrow> r(key \<mapsto> row)) rel rows"

subsection \<open>Parsing a JSON array of integers\<close>

text \<open>
  The reader of the \<open>segment_ids\<close> column: \<open>JSON.parse\<close> restricted to arrays of
  integer numerals without white space, which is what \<open>JSON.stringify\<close> writes. A numeral
  is an optional minus sign and decimal digits without a leading zero.
\<close>

definition is_digit :: "char \<Rightarrow> bool" where
  "is_digit c = (of_char (CHR ''0'') \<le> (of_char c :: nat) \<and> (of_char c :: nat) \<le> of_char (CHR ''9''))"

definition digit_value :: "char \<Rightarrow> nat" where
  "digit_value c = of_char c - of_char (CHR ''0'')"

fun digits_value :: "nat \<Rightarrow> string \<Rightarrow> nat option" where
  "digits_value acc [] = Some acc"
| "digits_value acc (c # cs) =
     (if is_digit c then digits_value (10 * acc + digit_value c) cs else None)"

definition parse_nat :: "string \<Rightarrow> nat option" where
  "parse_nat s = (if s = [] \<or> (hd s = CHR ''0'' \<and> tl s \<noteq> []) then None else digits_value 0 s)"

definition parse_int :: "string \<Rightarrow> int option" where
  "parse_int s =
     (case s of
        [] \<Rightarrow> None
      | c # r \<Rightarrow> if c = CHR ''-'' then map_option (\<lambda>n. - int n) (parse_nat r)
                 else map_option int (parse_nat s))"

fun split_commas :: "string \<Rightarrow> string list" where
  "split_commas [] = [[]]"
| "split_commas (c # cs) =
     (if c = CHR '','' then [] # split_commas cs
      else (case split_commas cs of [] \<Rightarrow> [[c]] | t # ts \<Rightarrow> (c # t) # ts))"

definition JSON_parse :: "string \<Rightarrow> int list option" where
  "JSON_parse s =
     (case s of
        [] \<Rightarrow> None
      | c # r \<Rightarrow>
          if c = CHR ''['' \<and> r \<noteq> [] \<and> last r = CHR '']'' then
            (if butlast r = [] then Some []
             else those (map parse_int (split_commas (butlast r))))
          else None)"

text \<open>The \<open>segment_ids\<close> column of an offers row, parsed: the third of its six values.\<close>

definition segment_ids_column :: "sql_value list \<Rightarrow> int list option" where
  "segment_ids_column row = (case row ! 2 of Str j \<Rightarrow> JSON_parse j | Num _ \<Rightarrow> None)"

section \<open>The synthetic data generator\<close>

subsection \<open>Double precision arithmetic\<close>

text \<open>
  A JavaScript number is an IEEE 754 double. A finite double is modelled by the real
  number it denotes, and every \<open>+\<close>, \<open>-\<close>, \<open>*\<close> and \<open>/\<close> of the source by the exact
  result rounded to the nearest double, ties to the even significand: that is \<open>fl\<close>.
  A double has 53 bits of precision and an exponent of at least \<open>-1022\<close> (subnormal
  numbers have the least exponent), so the doubles near \<open>x\<close> are the integer multiples of
  \<open>ulp x\<close>. The doubles are the reals \<open>x\<close> with \<open>fl x = x\<close>. Results beyond the largest
  finite double, infinities, \<open>NaN\<close> and the sign of zero are outside the model.
\<close>

definition double_exponent :: "real \<Rightarrow> int" where
  "double_exponent x = max (- 1022) \<lfloor>log 2 \<bar>x\<bar>\<rfloor>"

definition ulp :: "real \<Rightarrow> real" where
  "ulp x = 2 powi (double_exponent x - 52)"

definition round_half_even :: "real \<Rightarrow> int" where
  "round_half_even q =
     (let f = \<lfloor>q\<rfloor>
      in if q - of_int f < 1 / 2 then f
         else if 1 / 2 < q - of_int f then f + 1
         else if even f then f else f + 1)"

definition fl :: "real \<Rightarrow> real" where
  "fl x = (if x = 0 then 0 else of_int (round_half_even (x / ulp x)) * ulp x)"

subsection \<open>Random choices\<close>

text \<open>
  \<open>Math.random()\<close> is a parameter: the sequence of the values that successive calls
  return, each call taking the head of the sequence. Its contract, \<open>random_draws\<close>, is
  that every value is a double in \<open>[0, 1)\<close>.
\<close>

record CityConfig =
  name :: string
  lonlat :: "real \<times> real"
  diameter :: real

type_synonym rng = "nat \<Rightarrow> real"

definition Math_random :: "rng \<Rightarrow> real \<times> rng" where
  "Math_random g = (g 0, \<lambda>n. g (Suc n))"

definition random_draws :: "rng \<Rightarrow> bool" where
  "random_draws g = (\<forall>n. fl (g n) = g n \<and> 0 \<le> g n \<and> g n < 1)"

text \<open>
  \<^verbatim>\<open>const randomChoice = <T>(arr: readonly T[]): T =>
    arr[Math.floor(Math.random() * arr.length)];\<close>
  An index outside the array reads \<open>undefined\<close>, which is \<open>None\<close>. The length of an
  array is below \<open>2^32\<close>, a double.
\<close>

definition randomChoice :: "'a list \<Rightarrow> rng \<Rightarrow> 'a option \<times> rng" where
  "randomChoice arr g =
     (let (r, g1) = Math_random g;
          i = \<lfloor>fl (r * real (length arr))\<rfloor>
      in (if 0 \<le> i \<and> nat i < length arr then Some (arr ! nat i) else None, g1))"

text \<open>
  \<^verbatim>\<open>const randomFloatInRange = (min: number, max: number) =>
    Math.random() * (max - min) + min;\<close>
  \<^verbatim>\<open>const randomIntegerInRange = (min: number, max: number) =>
    Math.floor(randomFloatInRange(min, max));\<close>
\<close>

definition randomFloatInRange :: "real \<Rightarrow> real \<Rightarrow> rng \<Rightarrow> real \<times> rng" where
  "randomFloatInRange lo hi g =
     (let (r, g1) = Math_random g in (fl (fl (r * fl (hi - lo)) + lo), g1))"

definition randomIntegerInRange :: "real \<Rightarrow> real \<Rightarrow> rng \<Rightarrow> int \<times> rng" where
  "randomIntegerInRange lo hi g = (let (x, g1) = randomFloatInRange lo hi g in (\<lfloor>x\<rfloor>, g1))"

text \<open>
  The vendor catalogue \<open>@/static-data/vendors.json\<close> is not among the sources: it is a
  parameter \<open>VENDORS\<close>, a list of records with the two fields the module reads.
  \<open>toLowerCase\<close> is given on ASCII letters.
\<close>

record Vendor =
  vendor :: string
  tld :: string

definition randomVendor :: "Vendor list \<Rightarrow> rng \<Rightarrow> Vendor option \<times> rng" where
  "randomVendor VENDORS g = randomChoice VENDORS g"

definition randomSegmentKind :: "rng \<Rightarrow> SegmentKind option \<times> rng" where
  "randomSegmentKind g = randomChoice SegmentKinds g"

definition randomSegmentInterval :: "rng \<Rightarrow> SegmentInterval option \<times> rng" where
  "randomSegmentInterval g = randomChoice SegmentIntervals g"

definition toLowerCase :: "string \<Rightarrow> string" where
  "toLowerCase s =
     map (\<lambda>c. if (of_char (CHR ''A'') :: nat) \<le> of_char c \<and> (of_char c :: nat) \<le> of_char (CHR ''Z'')
              then char_of ((of_char c :: nat) + 32) else c) s"

definition vendorDomain :: "Vendor \<Rightarrow> string" where
  "vendorDomain v = toLowerCase (vendor v) @ ''.'' @ tld v"

subsection \<open>Points, segments and offers\<close>

text \<open>
  \<^verbatim>\<open>
  const randomPointInCity = (city: CityConfig): Point => {
    const [lon, lat] = city.lonlat;
    const radius = city.diameter / 2;
    const [minLon, maxLon] = [lon - radius, lon + radius];
    const [minLat, maxLat] = [lat - radius, lat + radius];
    return [
      randomFloatInRange(minLon, maxLon),
      randomFloatInRange(minLat, maxLat),
    ];
  };
  \<close>
  The function has no branch and no check: its model has no error result.
\<close>

definition randomPointInCity :: "CityConfig \<Rightarrow> rng \<Rightarrow> (real \<times> real) \<times> rng" where
  "randomPointInCity city g =
     (let (lon, lat) = lonlat city;
          radius = fl (diameter city / 2);
          (minLon, maxLon) = (fl (lon - radius), fl (lon + radius));
          (minLat, maxLat) = (fl (lat - radius), fl (lat + radius));
          (x, g1) = randomFloatInRange minLon maxLon g;
          (y, g2) = randomFloatInRange minLat maxLat g1
      in ((x, y), g2))"

text \<open>
  \<open>OpenLocationCode.encode(lat, lon, codeLength)\<close> and \<open>OpenLocationCode.decode(code)\<close>
  belong to the third-party package \<open>open-location-code-typescript\<close>, and
  \<open>boundsToWKTPolygon\<close> to \<open>@/geo\<close>, which is not among the sources; they are parameters
  of the generator. The two functions of the package can throw: their result is an
  option, \<open>None\<close> for an exception.

  \<open>randomSegment\<close> draws the kind, then the interval, then what the kind needs. The
  result is \<open>None\<close> where the source has no segment to return: a kind or an interval read
  outside its array, a vendor read from an empty catalogue (a \<open>TypeError\<close> in the
  source), or an exception of the encoder. The cases \<open>olc_8\<close> and \<open>olc_6\<close> of the
  \<open>switch\<close> share one body. \<open>substring(0, olcLen)\<close> is \<open>take olcLen\<close>.
\<close>

type_synonym olc_encoder = "real \<Rightarrow> real \<Rightarrow> nat \<Rightarrow> string option"

record CodeArea =
  latitudeLo :: real
  longitudeLo :: real
  latitudeHi :: real
  longitudeHi :: real

type_synonym olc_decoder = "string \<Rightarrow> CodeArea option"

record Bounds =
  ne :: "real \<times> real"
  sw :: "real \<times> real"

definition randomSegment ::
  "Vendor list \<Rightarrow> olc_encoder \<Rightarrow> CityConfig \<Rightarrow> rng \<Rightarrow> Segment option \<times> rng" where
  "randomSegment VENDORS encode city g =
     (let (kind_choice, g1) = randomSegmentKind g;
          (interval_choice, g2) = randomSegmentInterval g1
      in case (kind_choice, interval_choice) of
           (Some k, Some i) \<Rightarrow>
             (case k of
                olc_8 \<Rightarrow>
                  (let ((lon, lat), g3) = randomPointInCity city g2;
                       olcLen = (if k = olc_8 then 8 else 6)
                   in case encode lat lon olcLen of
                        Some code \<Rightarrow> (Some \<lparr>interval = i, kind = k, value = take olcLen code\<rparr>, g3)
                      | None \<Rightarrow> (None, g3))
              | olc_6 \<Rightarrow>
                  (let ((lon, lat), g3) = randomPointInCity city g2;
                       olcLen = (if k = olc_8 then 8 else 6)
                   in case encode lat lon olcLen of
                        Some code \<Rightarrow> (Some \<lparr>interval = i, kind = k, value = take olcLen code\<rparr>, g3)
                      | None \<Rightarrow> (None, g3))
              | purchase \<Rightarrow>
                  (case randomVendor VENDORS g2 of
                     (Some v, g3) \<Rightarrow> (Some \<lparr>interval = i, kind = k, value = vendor v\<rparr>, g3)
                   | (None, g3) \<Rightarrow> (None, g3))
              | request \<Rightarrow>
                  (case randomVendor VENDORS g2 of
                     (Some v, g3) \<Rightarrow> (Some \<lparr>interval = i, kind = k, value = vendorDomain v\<rparr>, g3)
                   | (None, g3) \<Rightarrow> (None, g3)))
         | _ \<Rightarrow> (None, g2))"

text \<open>
  \<open>Array.from({ length: n }, () => f())\<close> calls \<open>f\<close> once for each index, in order; the
  first call that throws ends it.
\<close>

fun Array_from :: "nat \<Rightarrow> (rng \<Rightarrow> 'a option \<times> rng) \<Rightarrow> rng \<Rightarrow> 'a list option \<times> rng" where
  "Array_from 0 f g = (Some [], g)"
| "Array_from (Suc n) f g =
     (case f g of
        (None, g1) \<Rightarrow> (None, g1)
      | (Some x, g1) \<Rightarrow>
          (case Array_from n f g1 of
             (None, g2) \<Rightarrow> (None, g2)
           | (Some xs, g2) \<Rightarrow> (Some (x # xs), g2)))"

text \<open>
  \<^verbatim>\<open>
  export const randomOffer = (city: CityConfig): Offer => {
    const numSegments = randomIntegerInRange(1, 3);
    const segments = Array.from({ length: numSegments }, () =>
      randomSegment(city)
    );

    const vendor = randomVendor();
    const domain = vendorDomain(vendor);
    const pctOff = randomIntegerInRange(10, 50);
    const vendorOfferId = randomIntegerInRange(1, 1000);
    const notificationContent = `${pctOff}% off at ${vendor.vendor}`;
    const notificationTarget = `https://${domain}/s2cellular?offerId=${vendorOfferId}`;

    const [lon, lat] = randomPointInCity(city);
    const olc = OpenLocationCode.encode(lat, lon, randomChoice([8, 10]));
    const area = OpenLocationCode.decode(olc);
    const bounds = {
      ne: [area.latitudeHi, area.longitudeHi],
      sw: [area.latitudeLo, area.longitudeLo],
    } as Bounds;

    return {
      segments,
      notificationZone: boundsToWKTPolygon(bounds),
      notificationContent,
      notificationTarget,
      maximumBidCents: randomIntegerInRange(2, 15),
    };
  };

  export const randomOffers = (city: CityConfig, numOffers: number) =>
    Array.from({ length: numOffers }, () => randomOffer(city));
  \<close>
  The draws are taken in the order of the source; the bid is drawn last, when the object
  returned is built. A length that is negative gives the empty array. The parameter
  \<open>numOffers\<close> of \<open>randomOffers\<close> is \<open>count\<close> here, a natural number.
\<close>

definition randomOffer ::
  "Vendor list \<Rightarrow> olc_encoder \<Rightarrow> olc_decoder \<Rightarrow> (Bounds \<Rightarrow> string) \<Rightarrow> CityConfig \<Rightarrow> rng
     \<Rightarrow> Offer option \<times> rng" where
  "randomOffer VENDORS encode decode boundsToWKTPolygon city g =
     (let (numSegments, g1) = randomIntegerInRange 1 3 g
      in case Array_from (nat numSegments) (randomSegment VENDORS encode city) g1 of
           (None, g2) \<Rightarrow> (None, g2)
         | (Some segs, g2) \<Rightarrow>
             (case randomVendor VENDORS g2 of
                (None, g3) \<Rightarrow> (None, g3)
              | (Some v, g3) \<Rightarrow>
                  (let domain = vendorDomain v;
                       (pctOff, g4) = randomIntegerInRange 10 50 g3;
                       (vendorOfferId, g5) = randomIntegerInRange 1 1000 g4;
                       content = int_string pctOff @ ''% off at '' @ vendor v;
                       target = ''https://'' @ domain @ ''/s2cellular?offerId=''
                         @ int_string vendorOfferId;
                       ((lon, lat), g6) = randomPointInCity city g5;
                       (length_choice, g7) = randomChoice [8, 10] g6
                   in case length_choice of
                        None \<Rightarrow> (None, g7)
                      | Some codeLength \<Rightarrow>
                          (case encode lat lon codeLength of
                             None \<Rightarrow> (None, g7)
                           | Some olc \<Rightarrow>
                               (case decode olc of
                                  None \<Rightarrow> (None, g7)
                                | Some area \<Rightarrow>
                                    (let bounds = \<lparr>ne = (latitudeHi area, longitudeHi area),
                                                    sw = (latitudeLo area, longitudeLo area)\<rparr>;
                                         (bid, g8) = randomIntegerInRange 2 15 g7
                                     in (Some \<lparr>segments = segs,
                                               notificationZone = boundsToWKTPolygon bounds,
                                               notificationContent = content,
                                               notificationTarget = target,
                                               maximumBidCents = bid\<rparr>, g8)))))))"

definition randomOffers ::
  "Vendor list \<Rightarrow> olc_encoder \<Rightarrow> olc_decoder \<Rightarrow> (Bounds \<Rightarrow> string) \<Rightarrow> CityConfig \<Rightarrow> nat \<Rightarrow> rng
     \<Rightarrow> Offer list option \<times> rng" where
  "randomOffers VENDORS encode decode boundsToWKTPolygon city count g =
     Array_from count (randomOffer VENDORS encode decode boundsToWKTPolygon city) g"

text \<open>
  What the generator takes for granted. \<open>finite_city\<close>: the three numbers of a city are
  doubles, of a magnitude that lets no sum or product of \<open>randomPointInCity\<close> exceed the
  largest double. \<open>externals_return\<close>: at the point \<open>(lon, lat)\<close> the encoder returns a
  code for each of the three lengths the generator asks for, and the decoder an area for
  the codes that \<open>randomOffer\<close> decodes.
\<close>

definition finite_city :: "CityConfig \<Rightarrow> bool" where
  "finite_city city =
     (fl (fst (lonlat city)) = fst (lonlat city) \<and> \<bar>fst (lonlat city)\<bar> \<le> 2 ^ 1000
      \<and> fl (snd (lonlat city)) = snd (lonlat city) \<and> \<bar>snd (lonlat city)\<bar> \<le> 2 ^ 1000
      \<and> fl (diameter city) = diameter city \<and> \<bar>diameter city\<bar> \<le> 2 ^ 1000)"

definition externals_return :: "olc_encoder \<Rightarrow> olc_decoder \<Rightarrow> real \<times> real \<Rightarrow> bool" where
  "externals_return encode decode p =
     (case p of (lon, lat) \<Rightarrow>
        encode lat lon 6 \<noteq> None
        \<and> (\<exists>code. encode lat lon 8 = Some code \<and> decode code \<noteq> None)
        \<and> (\<exists>code. encode lat lon 10 = Some code \<and> decode code \<noteq> None))"

text \<open>
  The format of an Open Location Code of at most 8 digits, as the encoder of the package
  returns it: \<open>n\<close> digits of the code alphabet, zeros as padding up to 8 characters, and
  the separator \<open>+\<close> as the ninth and last character.
\<close>

definition olc_alphabet :: string where
  "olc_alphabet = ''23456789CFGHJMPQRVWX''"

definition olc_code_shape :: "nat \<Rightarrow> string \<Rightarrow> bool" where
  "olc_code_shape n code =
     (set (take n code) \<subseteq> set olc_alphabet
      \<and> take (8 - n) (drop n code) = replicate (8 - n) (CHR ''0'')
      \<and> drop 8 code = ''+'')"

text \<open>
  Concrete values for evaluating the generator on examples: a city whose coordinates and
  diameter are doubles, an encoder and a decoder that return the same code and the same
  area everywhere, and the sequence of draws that starts with the largest double below 1,
  \<open>1 - 2^-53\<close>, and goes on with zeros.
\<close>

definition sample_encoder :: olc_encoder where
  "sample_encoder lat lon n =
     Some (if n = 8 then ''87G8Q2JM+'' else if n = 10 then ''87G8Q2JM+GH'' else ''87G8Q200+'')"

definition sample_decoder :: olc_decoder where
  "sample_decoder code =
     Some \<lparr>latitudeLo = 40.75, longitudeLo = - 74, latitudeHi = 40.875, longitudeHi = - 73.875\<rparr>"

definition sample_wkt :: "Bounds \<Rightarrow> string" where
  "sample_wkt b = ''POLYGON((-74 40.75, -74 40.875, -73.875 40.875, -73.875 40.75, -74 40.75))''"

definition sample_city :: CityConfig where
  "sample_city = \<lparr>name = ''Sample'', lonlat = (- 74, 40.75), diameter = 0.25\<rparr>"

definition sample_vendors :: "Vendor list" where
  "sample_vendors = [\<lparr>vendor = ''Acme'', tld = ''com''\<rparr>]"

definition top_draws :: rng where
  "top_draws n = (if n = 0 then 1 - 2 powi (- 53) else 0)"

section \<open>createOffers refines the flush sequence\<close>

lemma foldl_append_tuples:
  "tuples (foldl (\<lambda>b x. MultiReplace_append b (f x)) b0 xs) = tuples b0 @ map f xs"
  by (induction xs arbitrary: b0) (simp_all add: MultiReplace_append_def)

lemma foldl_append_table:
  "table (foldl (\<lambda>b x. MultiReplace_append b (f x)) b0 xs) = table b0
   \<and> columns (foldl (\<lambda>b x. MultiReplace_append b (f x)) b0 xs) = columns b0"
  by (induction xs arbitrary: b0) (simp_all add: MultiReplace_append_def)

lemma createSegments_eq:
  "createSegments h db segs tr =
     (if db tr (segments_call h segs) then Inr () else Inl StatementError,
      tr @ [(segments_call h segs, db tr (segments_call h segs))])"
  by (simp add: createSegments_def Exec_def Let_def MultiReplace_sql_def MultiReplace_params_def
      foldl_append_tuples foldl_append_table new_MultiReplace_def segments_call_def)

lemma commitBatch_eq:
  "commitBatch h db (state_of h cid b) tr =
     outcome_of h cid (run_flushes h db cid [b] tr)"
  by (simp add: commitBatch_def Exec_def Let_def createSegments_eq Promise_all_def
      outcome_of_def state_of_def MultiReplace_sql_def MultiReplace_params_def
      MultiReplace_clear_def offers_call_def)


lemma batches_Nil [simp]: "batches n [] = []"
  by (simp add: batches.simps)

lemma batches_short: "xs \<noteq> [] \<Longrightarrow> length xs \<le> n \<Longrightarrow> batches n xs = [xs]"
  by (subst batches.simps) (cases n; auto)

lemma batches_append_full: "length xs = n \<Longrightarrow> 0 < n \<Longrightarrow> batches n (xs @ ys) = xs # batches n ys"
  by (subst batches.simps) auto

lemma state_of_numOffers [simp]: "numOffers (state_of h cid b) = length b"
  by (simp add: state_of_def)

lemma state_of_step:
  "\<lparr>stmt = MultiReplace_append (stmt (state_of h cid cur)) (offer_values h cid offer),
    numOffers = numOffers (state_of h cid cur) + 1,
    pendingSegments = pendingSegments (state_of h cid cur) @ segments offer\<rparr>
   = state_of h cid (cur @ [offer])"
  by (simp add: state_of_def MultiReplace_append_def)

lemma loop_refines:
  "length cur < MAX_OFFERS_PER_BATCH \<Longrightarrow>
   (case createOffers_loop h db cid os (state_of h cid cur) tr of
      (Inl e, st, tr') \<Rightarrow> (Inl e, st, tr')
    | (Inr _, st, tr') \<Rightarrow>
        if numOffers st > 0 then commitBatch h db st tr' else (Inr (), st, tr'))
   = outcome_of h cid (run_flushes h db cid (batches MAX_OFFERS_PER_BATCH (cur @ os)) tr)"
proof (induction os arbitrary: cur tr)
  case Nil
  show ?case
  proof (cases "cur = []")
    case True
    then show ?thesis by (simp add: outcome_of_def)
  next
    case False
    with Nil have "batches MAX_OFFERS_PER_BATCH cur = [cur]"
      by (simp add: batches_short)
    with False show ?thesis by (simp add: commitBatch_eq)
  qed
next
  case (Cons offer rest)
  let ?cur1 = "cur @ [offer]"
  show ?case
  proof (cases "length ?cur1 \<ge> MAX_OFFERS_PER_BATCH")
    case True
    with Cons.prems have len: "length ?cur1 = MAX_OFFERS_PER_BATCH" by simp
    have pos: "0 < MAX_OFFERS_PER_BATCH" by (simp add: MAX_OFFERS_PER_BATCH_def)
    have bs: "batches MAX_OFFERS_PER_BATCH (cur @ offer # rest)
                = ?cur1 # batches MAX_OFFERS_PER_BATCH rest"
      using batches_append_full [OF len pos, of rest] by simp
    have ih: "\<And>tr. (case createOffers_loop h db cid rest (state_of h cid []) tr of
      (Inl e, st, tr') \<Rightarrow> (Inl e, st, tr')
    | (Inr _, st, tr') \<Rightarrow>
        if numOffers st > 0 then commitBatch h db st tr' else (Inr (), st, tr'))
   = outcome_of h cid (run_flushes h db cid (batches MAX_OFFERS_PER_BATCH rest) tr)"
      using Cons.IH [of "[]"] pos by simp
    show ?thesis
      using True
      apply (simp only: createOffers_loop.simps state_of_step Let_def bs)
      apply (simp add: commitBatch_eq Let_def)
      apply (auto simp add: ih outcome_of_def)
      done
  next
    case False
    then have lt: "length ?cur1 < MAX_OFFERS_PER_BATCH" by simp
    show ?thesis
      using False Cons.IH [OF lt, of tr]
      by (simp only: createOffers_loop.simps state_of_step Let_def)
         (simp add: Let_def)
  qed
qed

lemma state_of_Nil:
  "\<lparr>stmt = new_MultiReplace ''offers'' offers_columns, numOffers = 0, pendingSegments = []\<rparr>
     = state_of h cid []"
  by (simp add: state_of_def new_MultiReplace_def)

lemma createOffers_refines:
  "createOffers h db offers arg =
     outcome_of h (customerId_of arg)
       (run_flushes h db (customerId_of arg) (batches MAX_OFFERS_PER_BATCH offers) [])"
proof -
  have pos: "length ([]::Offer list) < MAX_OFFERS_PER_BATCH" by (simp add: MAX_OFFERS_PER_BATCH_def)
  show ?thesis
    unfolding createOffers_def Let_def customerId_of_def [symmetric]
    by (simp only: state_of_Nil [of h "customerId_of arg"])
       (use loop_refines [OF pos, of h db "customerId_of arg" offers "[]"] in simp)
qed

subsection \<open>Facts about batches\<close>

lemma div_one_batch: "0 < k \<Longrightarrow> k \<le> n \<Longrightarrow> (k + n - 1) div n = (1::nat)"
proof -
  assume k: "0 < k" "k \<le> n"
  then have b: "k + n - 1 = (k - 1) + n" and "k - 1 < n" and "n \<noteq> 0" by arith+
  then have "(k - 1) div n = 0" by (simp only: div_less)
  with div_add_self2 [OF \<open>n \<noteq> 0\<close>, of "k - 1"] show ?thesis by (simp only: b)
qed

lemma div_more_batches:
  "0 < n \<Longrightarrow> n < k \<Longrightarrow> (k + n - 1) div n = Suc ((k - n + n - 1) div n)" for k :: nat
proof -
  assume n: "0 < n" "n < k"
  then have a: "k - n + n - 1 = k - 1" and b: "k + n - 1 = (k - 1) + n" by arith+
  from n have "n \<noteq> 0" by simp
  from div_add_self2 [OF this, of "k - 1"] show ?thesis by (simp only: a b Suc_eq_plus1)
qed

lemma length_batches: "0 < n \<Longrightarrow> length (batches n xs) = (length xs + n - 1) div n"
proof (induction n xs rule: batches.induct)
  case (1 n xs)
  show ?case
  proof (cases "xs = []")
    case True
    with "1.prems" show ?thesis by simp
  next
    case False
    show ?thesis
    proof (cases "length xs \<le> n")
      case True
      with False have "(length xs + n - 1) div n = 1"
        by (intro div_one_batch) simp_all
      with True False show ?thesis by (simp add: batches_short)
    next
      case gt: False
      then have d: "(length xs + n - 1) div n = Suc ((length xs - n + n - 1) div n)"
        using "1.prems" by (intro div_more_batches) simp_all
      have step: "batches n xs = take n xs # batches n (drop n xs)"
        using False "1.prems" by (subst batches.simps) simp
      have "length (batches n (drop n xs)) = (length (drop n xs) + n - 1) div n"
        using "1.IH" False "1.prems" by blast
      then have "length (batches n xs) = Suc ((length xs - n + n - 1) div n)"
        by (simp add: step)
      with d show ?thesis by (simp only:)
    qed
  qed
qed

lemma concat_take_batches: "concat (take m (batches n xs)) = take (m * n) xs"
proof (induction m arbitrary: xs)
  case 0
  show ?case by simp
next
  case (Suc m)
  show ?case
  proof (cases "n = 0 \<or> xs = []")
    case True
    then have "batches n xs = []" by (subst batches.simps) simp
    with True show ?thesis by auto
  next
    case False
    then have "batches n xs = take n xs # batches n (drop n xs)"
      by (subst batches.simps) simp
    then show ?thesis
      by (simp add: Suc.IH take_add)
  qed
qed

lemma batches_cover: "0 < n \<Longrightarrow> k \<le> (k + n - 1) div n * n" for k :: nat
proof -
  assume n: "0 < n"
  have "k + n - 1 = (k + n - 1) div n * n + (k + n - 1) mod n" by simp
  moreover have "(k + n - 1) mod n < n" using n by simp
  ultimately show ?thesis by linarith
qed

lemma concat_batches: "0 < n \<Longrightarrow> concat (batches n xs) = xs"
proof -
  assume "0 < n"
  then have "length xs \<le> length (batches n xs) * n"
    using batches_cover [of n "length xs"] by (simp add: length_batches)
  then show ?thesis
    using concat_take_batches [of "length (batches n xs)" n xs] by simp
qed

lemma batches_concat:
  "0 < n \<Longrightarrow> \<forall>xs \<in> set xss. length xs = n \<Longrightarrow> batches n (concat xss) = xss"
proof (induction xss)
  case Nil
  show ?case by simp
next
  case (Cons xs xss)
  then have "length xs = n" by simp
  from batches_append_full [OF this Cons.prems(1), of "concat xss"] Cons
  show ?case by simp
qed

subsection \<open>The trace of a run\<close>

lemma length_flush_calls:
  "length (concat (map (flush_calls h cid) bs)) = 2 * length bs"
  by (induction bs) (simp_all add: flush_calls_def)

lemma run_flushes_trace:
  "run_flushes h db cid bs tr = (res, tr') \<Longrightarrow>
   \<exists>m ext. tr' = tr @ ext \<and> m \<le> length bs
     \<and> map fst ext = concat (map (flush_calls h cid) (take m bs))
     \<and> list_all snd (butlast (butlast ext))
     \<and> (res = None \<longrightarrow> m = length bs \<and> list_all snd ext)
     \<and> (\<forall>b. res = Some b \<longrightarrow> 0 < m \<and> b = bs ! (m - 1) \<and> \<not> list_all snd ext
            \<and> run_flushes h db cid [b] (butlast (butlast tr')) = (Some b, tr'))"
proof (induction bs arbitrary: tr)
  case Nil
  then show ?case by simp
next
  case (Cons b bs)
  define c1 where "c1 = offers_call h cid b"
  define c2 where "c2 = segments_call h (concat (map segments b))"
  define ok1 where "ok1 = db tr c1"
  define ok2 where "ok2 = db (tr @ [(c1, ok1)]) c2"
  define new where "new = [(c1, ok1), (c2, ok2)]"
  have step: "run_flushes h db cid (b # bs) tr =
      (if ok1 \<and> ok2 then run_flushes h db cid bs (tr @ new) else (Some b, tr @ new))"
    by (auto simp add: Let_def c1_def c2_def ok1_def ok2_def new_def)
  have calls: "map fst new = flush_calls h cid b"
    by (simp add: flush_calls_def new_def c1_def c2_def)
  have oks: "list_all snd new \<longleftrightarrow> ok1 \<and> ok2"
    by (simp add: new_def)
  show ?case
  proof (cases "ok1 \<and> ok2")
    case True
    with Cons.prems step have "run_flushes h db cid bs (tr @ new) = (res, tr')"
      by simp
    from Cons.IH [OF this] obtain m ext where
      ih: "tr' = (tr @ new) @ ext" "m \<le> length bs"
        "map fst ext = concat (map (flush_calls h cid) (take m bs))"
        "list_all snd (butlast (butlast ext))"
        "res = None \<longrightarrow> m = length bs \<and> list_all snd ext"
        "\<forall>b. res = Some b \<longrightarrow> 0 < m \<and> b = bs ! (m - 1) \<and> \<not> list_all snd ext
            \<and> run_flushes h db cid [b] (butlast (butlast tr')) = (Some b, tr')"
      by blast
    have "length ext = length (concat (map (flush_calls h cid) (take m bs)))"
      using ih(3) by (metis length_map)
    then have len: "length ext = 2 * m"
      using ih(2) by (simp add: length_flush_calls)
    have bb: "list_all snd (butlast (butlast (new @ ext)))"
    proof (cases "m = 0")
      case True
      with len show ?thesis by (simp add: new_def)
    next
      case False
      with len have "butlast (butlast (new @ ext)) = new @ butlast (butlast ext)"
        by (cases ext rule: rev_cases; cases "butlast ext" rule: rev_cases)
           (auto simp: butlast_append)
      with ih(4) \<open>ok1 \<and> ok2\<close> oks show ?thesis by simp
    qed
    have "tr' = tr @ (new @ ext)" using ih(1) by simp
    moreover have "Suc m \<le> length (b # bs)" using ih(2) by simp
    moreover have "map fst (new @ ext) = concat (map (flush_calls h cid) (take (Suc m) (b # bs)))"
      using ih(3) calls by simp
    moreover have "res = None \<longrightarrow> Suc m = length (b # bs) \<and> list_all snd (new @ ext)"
      using ih(5) True oks by simp
    moreover have "\<forall>b'. res = Some b' \<longrightarrow>
        0 < Suc m \<and> b' = (b # bs) ! (Suc m - 1) \<and> \<not> list_all snd (new @ ext)
          \<and> run_flushes h db cid [b'] (butlast (butlast tr')) = (Some b', tr')"
      using ih(6) by (auto simp: nth_Cons')
    ultimately show ?thesis using bb by blast
  next
    case False
    with Cons.prems step have res: "res = Some b" "tr' = tr @ new"
      by simp_all
    have "map fst new = concat (map (flush_calls h cid) (take 1 (b # bs)))"
      using calls by simp
    moreover have "\<not> list_all snd new" using False oks by simp
    moreover have "(1::nat) \<le> length (b # bs)" by simp
    moreover have "list_all snd (butlast (butlast new))" by (simp add: new_def)
    moreover have "run_flushes h db cid [b] (butlast (butlast (tr @ new))) = (Some b, tr @ new)"
      using False by (auto simp add: Let_def c1_def c2_def ok1_def ok2_def new_def butlast_append)
    ultimately show ?thesis using res
      by (intro exI [of _ "1::nat"] exI [of _ new]) simp
  qed
qed

lemma createOffers_trace:
  assumes "createOffers h db offers arg = (r, st, tr)"
  shows "\<exists>m \<le> length (batches MAX_OFFERS_PER_BATCH offers).
     map fst tr = concat (map (flush_calls h (customerId_of arg))
                    (take m (batches MAX_OFFERS_PER_BATCH offers)))
     \<and> list_all snd (butlast (butlast tr))
     \<and> (r = Inr () \<longrightarrow> m = length (batches MAX_OFFERS_PER_BATCH offers) \<and> list_all snd tr
            \<and> st = state_of h (customerId_of arg) [])
     \<and> (r \<noteq> Inr () \<longrightarrow> r = Inl StatementError \<and> 0 < m \<and> \<not> list_all snd tr
            \<and> st = state_of h (customerId_of arg) (batches MAX_OFFERS_PER_BATCH offers ! (m - 1))
            \<and> commitBatch h db st (butlast (butlast tr)) = (r, st, tr))"
proof -
  let ?B = "batches MAX_OFFERS_PER_BATCH offers"
  let ?cid = "customerId_of arg"
  obtain res tr' where run: "run_flushes h db ?cid ?B [] = (res, tr')"
    by (cases "run_flushes h db ?cid ?B []") 
  from run_flushes_trace [OF run] obtain m where
    m: "m \<le> length ?B" "map fst tr' = concat (map (flush_calls h ?cid) (take m ?B))"
       "list_all snd (butlast (butlast tr'))"
       "res = None \<longrightarrow> m = length ?B \<and> list_all snd tr'"
       "\<forall>b. res = Some b \<longrightarrow> 0 < m \<and> b = ?B ! (m - 1) \<and> \<not> list_all snd tr'
            \<and> run_flushes h db ?cid [b] (butlast (butlast tr')) = (Some b, tr')"
    by auto
  from assms run have out: "(r, st, tr) = outcome_of h ?cid (res, tr')"
    by (simp add: createOffers_refines)
  show ?thesis
  proof (cases res)
    case None
    with out m show ?thesis by (auto simp: outcome_of_def)
  next
    case (Some b)
    with out have r: "r = Inl StatementError" "st = state_of h ?cid b" "tr = tr'"
      by (simp_all add: outcome_of_def)
    from Some m(5) have "run_flushes h db ?cid [b] (butlast (butlast tr')) = (Some b, tr')"
      by blast
    then have "commitBatch h db st (butlast (butlast tr)) = (r, st, tr)"
      using r by (simp add: commitBatch_eq outcome_of_def)
    with r Some m show ?thesis by auto
  qed
qed

lemma paired_flush_calls: "paired (concat (map (flush_calls h cid) bs))"
  by (induction bs) (simp_all add: flush_calls_def offers_call_def segments_call_def)

lemma filter_offers_flush_calls:
  "filter (\<lambda>c. relation (call_sql c) = ''offers'') (concat (map (flush_calls h cid) bs))
     = map (offers_call h cid) bs"
  by (induction bs) (simp_all add: flush_calls_def offers_call_def segments_call_def)

lemma filter_segments_flush_calls:
  "filter (\<lambda>c. relation (call_sql c) = ''segments'') (concat (map (flush_calls h cid) bs))
     = map (\<lambda>b. segments_call h (concat (map segments b))) bs"
  by (induction bs) (simp_all add: flush_calls_def offers_call_def segments_call_def)

lemma writes_to_offers:
  "map fst tr = concat (map (flush_calls h cid) bs) \<Longrightarrow>
   writes_to ''offers'' tr = map (offers_call h cid) bs"
  by (simp add: writes_to_def filter_offers_flush_calls)

lemma writes_to_segments:
  "map fst tr = concat (map (flush_calls h cid) bs) \<Longrightarrow>
   writes_to ''segments'' tr = map (\<lambda>b. segments_call h (concat (map segments b))) bs"
  by (simp add: writes_to_def filter_segments_flush_calls)

lemma call_rows_offers_call: "call_rows (offers_call h cid b) = map (offer_values h cid) b"
  unfolding call_rows_def offers_call_def
  by (simp add: offers_columns_def) (rule batches_concat, simp_all add: offer_values_def)

lemma call_rows_segments_call: "call_rows (segments_call h segs) = map (segment_values h) segs"
  unfolding call_rows_def segments_call_def
  by (simp add: segments_columns_def) (rule batches_concat, simp_all add: segment_values_def)

lemma div_500_bounds: "n \<le> 500 * ((n + 499) div 500) \<and> 500 * ((n + 499) div 500) < n + 500" for n :: nat
proof -
  have "(n + 499) div 500 * 500 + (n + 499) mod 500 = n + 499"
    by (rule div_mult_mod_eq)
  moreover have "(n + 499) mod 500 < 500" by simp
  ultimately show ?thesis by linarith
qed

lemma ceiling_batches: "\<lceil>real n / 500\<rceil> = int ((n + 499) div 500)"
proof -
  define q where "q = (n + 499) div 500"
  have b: "n \<le> 500 * q" "500 * q < n + 500"
    using div_500_bounds [of n] by (simp_all only: q_def)
  from b(1) have "real n \<le> real (500 * q)" by (simp only: of_nat_le_iff)
  then have u: "real n / 500 \<le> real q" by simp
  from b(2) have "real (500 * q) < real (n + 500)" by (simp only: of_nat_less_iff)
  then have l: "real q - 1 < real n / 500" by simp
  have "\<lceil>real n / 500\<rceil> = int q"
    by (rule ceiling_unique) (use u l in simp_all)
  then show ?thesis by (simp only: q_def)
qed

lemma length_batches_500:
  "length (batches MAX_OFFERS_PER_BATCH offers) = (length offers + 499) div 500"
  by (simp add: length_batches MAX_OFFERS_PER_BATCH_def)

lemma concat_batches_500: "concat (batches MAX_OFFERS_PER_BATCH offers) = offers"
  by (simp add: concat_batches MAX_OFFERS_PER_BATCH_def)

lemma rows_offers_calls:
  "concat (map call_rows (map (offers_call h cid) bs)) = map (offer_values h cid) (concat bs)"
  by (induction bs) (simp_all add: call_rows_offers_call)

lemma row_count_offers_calls:
  "sum_list (map (row_count \<circ> call_sql) (map (offers_call h cid) bs)) = length (concat bs)"
  by (induction bs) (simp_all add: offers_call_def)

lemma run_flushes_accept_all: "fst (run_flushes h accept_all cid bs tr) = None"
  by (induction bs arbitrary: tr) (simp_all add: accept_all_def Let_def)

lemma createOffers_accept_all: "fst (createOffers h accept_all offers arg) = Inr ()"
proof -
  obtain res tr where "run_flushes h accept_all (customerId_of arg)
      (batches MAX_OFFERS_PER_BATCH offers) [] = (res, tr)"
    by (cases "run_flushes h accept_all (customerId_of arg) (batches MAX_OFFERS_PER_BATCH offers) []")
  moreover from this run_flushes_accept_all [of h "customerId_of arg" "batches MAX_OFFERS_PER_BATCH offers" "[]"]
  have "res = None" by simp
  ultimately show ?thesis by (simp add: createOffers_refines outcome_of_def)
qed

lemma batches_nonempty: "b \<in> set (batches n xs) \<Longrightarrow> b \<noteq> []"
proof (induction n xs rule: batches.induct)
  case (1 n xs)
  show ?case
  proof (cases "n = 0 \<or> xs = []")
    case True
    then have "batches n xs = []" by (subst batches.simps) simp
    with "1.prems" show ?thesis by simp
  next
    case False
    then have "batches n xs = take n xs # batches n (drop n xs)"
      by (subst batches.simps) simp
    with "1.prems" have "b = take n xs \<or> b \<in> set (batches n (drop n xs))" by simp
    then show ?thesis
    proof
      assume "b = take n xs"
      with False show ?thesis by simp
    next
      assume "b \<in> set (batches n (drop n xs))"
      with "1.IH" False show ?thesis by blast
    qed
  qed
qed

lemma commitBatch_rejected_state:
  "commitBatch h db st tr = (Inl e, st', tr') \<Longrightarrow> st' = st"
  by (auto simp: commitBatch_def Let_def split: prod.splits sum.splits)

lemma offer_values_customer: "offer_values h cid offer ! 0 = Num cid"
  by (simp add: offer_values_def)

lemma offers_rows_trace:
  "map fst tr = concat (map (flush_calls h cid) bs) \<Longrightarrow>
   concat (map call_rows (writes_to ''offers'' tr)) = map (offer_values h cid) (concat bs)"
  by (simp only: writes_to_offers rows_offers_calls)

lemma createOffers_accept_all_rows:
  "concat (map call_rows (writes_to ''offers'' (snd (snd (createOffers h accept_all offers arg)))))
     = map (offer_values h (customerId_of arg)) offers"
proof -
  obtain r st tr where run: "createOffers h accept_all offers arg = (r, st, tr)"
    by (cases "createOffers h accept_all offers arg")
  with createOffers_accept_all [of h offers arg] have "r = Inr ()" by simp
  with createOffers_trace [OF run]
  have "map fst tr = concat (map (flush_calls h (customerId_of arg))
      (batches MAX_OFFERS_PER_BATCH offers))"
    by auto
  from offers_rows_trace [OF this] show ?thesis
    by (simp only: run snd_conv concat_batches_500)
qed

subsection \<open>The JSON round trip\<close>

lemma of_char_digit_char: "d < 10 \<Longrightarrow> (of_char (digit_char d) :: nat) = 48 + d"
  by (simp add: digit_char_def)

lemma digit_char_props:
  "d < 10 \<Longrightarrow> is_digit (digit_char d) \<and> digit_value (digit_char d) = d
     \<and> digit_char d \<noteq> CHR '','' \<and> digit_char d \<noteq> CHR ''-''
     \<and> (digit_char d = CHR ''0'' \<longrightarrow> d = 0)"
proof -
  assume d: "d < 10"
  note oc = of_char_digit_char [OF d]
  have "is_digit (digit_char d)" using d by (simp add: is_digit_def oc)
  moreover have "digit_value (digit_char d) = d" by (simp add: digit_value_def oc)
  moreover have "digit_char d \<noteq> CHR '',''"
  proof
    assume "digit_char d = CHR '',''"
    then have "(of_char (digit_char d) :: nat) = of_char (CHR '','')" by (simp only:)
    with oc show False by simp
  qed
  moreover have "digit_char d \<noteq> CHR ''-''"
  proof
    assume "digit_char d = CHR ''-''"
    then have "(of_char (digit_char d) :: nat) = of_char (CHR ''-'')" by (simp only:)
    with oc show False by simp
  qed
  moreover have "digit_char d = CHR ''0'' \<longrightarrow> d = 0"
  proof
    assume "digit_char d = CHR ''0''"
    then have "(of_char (digit_char d) :: nat) = of_char (CHR ''0'')" by (simp only:)
    with oc show "d = 0" by simp
  qed
  ultimately show ?thesis by simp
qed

lemma digits_value_append:
  "digits_value acc (s @ t) = (case digits_value acc s of None \<Rightarrow> None | Some a \<Rightarrow> digits_value a t)"
  by (induction s arbitrary: acc) simp_all

lemma digits_value_nat_string: "digits_value 0 (nat_string n) = Some n"
proof (induction n rule: nat_string.induct)
  case (1 n)
  show ?case
  proof (cases "n < 10")
    case True
    then show ?thesis
      by (subst nat_string.simps) (simp add: digit_char_props)
  next
    case False
    have m: "n mod 10 < 10" by simp
    from False "1.IH" have "digits_value 0 (nat_string (n div 10)) = Some (n div 10)" by simp
    with False show ?thesis
      by (subst nat_string.simps) (simp add: digits_value_append digit_char_props [OF m])
  qed
qed

lemma nat_string_nonempty: "nat_string n \<noteq> []"
  by (subst nat_string.simps) simp

lemma nat_string_chars:
  "c \<in> set (nat_string n) \<Longrightarrow> c \<noteq> CHR '','' \<and> c \<noteq> CHR ''-''"
proof (induction n rule: nat_string.induct)
  case (1 n)
  have m: "n mod 10 < 10" by simp
  show ?case
  proof (cases "n < 10")
    case True
    with "1.prems" have "c = digit_char n" by (subst (asm) nat_string.simps) simp
    with True show ?thesis by (simp add: digit_char_props)
  next
    case False
    with "1.prems" have "c \<in> set (nat_string (n div 10)) \<or> c = digit_char (n mod 10)"
      by (subst (asm) nat_string.simps) auto
    then show ?thesis
    proof
      assume "c \<in> set (nat_string (n div 10))"
      with "1.IH" False show ?thesis by simp
    next
      assume "c = digit_char (n mod 10)"
      with digit_char_props [OF m] show ?thesis by simp
    qed
  qed
qed

lemma nat_string_leading: "0 < n \<Longrightarrow> hd (nat_string n) \<noteq> CHR ''0''"
proof (induction n rule: nat_string.induct)
  case (1 n)
  show ?case
  proof (cases "n < 10")
    case True
    with "1.prems" digit_char_props [OF True] show ?thesis
      by (subst nat_string.simps) auto
  next
    case False
    then have "0 < n div 10" by simp
    with "1.IH" False have "hd (nat_string (n div 10)) \<noteq> CHR ''0''" by simp
    with False show ?thesis
      by (subst nat_string.simps) (simp add: nat_string_nonempty)
  qed
qed

lemma nat_string_zero: "parse_nat (nat_string 0) = Some 0"
proof -
  have z: "(0::nat) < 10" by simp
  have "nat_string 0 = [digit_char 0]" by (subst nat_string.simps) simp
  then show ?thesis
    using digit_char_props [OF z] by (simp add: parse_nat_def)
qed

lemma parse_nat_nat_string: "parse_nat (nat_string n) = Some n"
proof (cases "n = 0")
  case True
  then show ?thesis by (simp only: nat_string_zero)
next
  case False
  then have "hd (nat_string n) \<noteq> CHR ''0''" by (simp add: nat_string_leading)
  then show ?thesis
    by (simp add: parse_nat_def nat_string_nonempty digits_value_nat_string)
qed

lemma parse_int_int_string: "parse_int (int_string i) = Some i"
proof (cases "i < 0")
  case True
  then show ?thesis
    by (simp add: int_string_def parse_int_def parse_nat_nat_string)
next
  case False
  obtain c r where cr: "nat_string (nat i) = c # r"
    using nat_string_nonempty [of "nat i"] by (cases "nat_string (nat i)") auto
  then have "c \<in> set (nat_string (nat i))" by simp
  then have "c \<noteq> CHR ''-''" using nat_string_chars [of c "nat i"] by simp
  with False cr parse_nat_nat_string [of "nat i"] show ?thesis
    by (simp add: int_string_def parse_int_def)
qed

lemma int_string_no_comma: "CHR '','' \<notin> set (int_string i)"
  using nat_string_chars by (auto simp: int_string_def)

lemma int_string_nonempty: "int_string i \<noteq> []"
  by (simp add: int_string_def nat_string_nonempty)

lemma split_commas_nonempty: "split_commas s \<noteq> []"
  by (induction s) (auto split: list.splits)

lemma split_commas_token:
  "CHR '','' \<notin> set s \<Longrightarrow> split_commas (s @ CHR '','' # r) = s # split_commas r"
  by (induction s) auto

lemma split_commas_single: "CHR '','' \<notin> set s \<Longrightarrow> split_commas s = [s]"
  by (induction s) auto

lemma split_commas_join:
  "ss \<noteq> [] \<Longrightarrow> \<forall>s \<in> set ss. CHR '','' \<notin> set s \<Longrightarrow> split_commas (join_comma ss) = ss"
proof (induction ss rule: join_comma.induct)
  case 1
  then show ?case by simp
next
  case (2 s)
  then show ?case by (simp add: split_commas_single)
next
  case (3 s t ss)
  then show ?case by (simp add: split_commas_token)
qed

lemma join_comma_nonempty: "ss \<noteq> [] \<Longrightarrow> \<forall>s \<in> set ss. s \<noteq> [] \<Longrightarrow> join_comma ss \<noteq> []"
  by (induction ss rule: join_comma.induct) simp_all

lemma those_map_parse: "those (map (parse_int \<circ> int_string) xs) = Some xs"
  by (induction xs) (simp_all add: parse_int_int_string)

lemma JSON_roundtrip: "JSON_parse (JSON_stringify xs) = Some xs"
proof (cases "xs = []")
  case True
  then show ?thesis by (simp add: JSON_parse_def JSON_stringify_def)
next
  case False
  let ?body = "join_comma (map int_string xs)"
  have ne: "?body \<noteq> []"
    using False by (intro join_comma_nonempty) (auto simp: int_string_nonempty)
  have "split_commas ?body = map int_string xs"
    using False by (intro split_commas_join) (auto simp: int_string_no_comma)
  with ne show ?thesis
    by (simp add: JSON_parse_def JSON_stringify_def those_map_parse)
qed

lemma segment_ids_column_offer_values:
  "segment_ids_column (offer_values h cid offer) = Some (map (segmentId h) (segments offer))"
  by (simp add: segment_ids_column_def offer_values_def JSON_roundtrip)

subsection \<open>The string that is hashed\<close>

lemma interval_key_inject:
  "interval_string i @ CHR ''-'' # xs = interval_string j @ CHR ''-'' # ys \<Longrightarrow> i = j \<and> xs = ys"
  by (cases i; cases j) simp_all

lemma kind_key_inject:
  "kind_string i @ CHR ''-'' # xs = kind_string j @ CHR ''-'' # ys \<Longrightarrow> i = j \<and> xs = ys"
  by (cases i; cases j) simp_all

lemma segment_key_inject:
  assumes "interval_string (interval s) @ ''-'' @ kind_string (kind s) @ ''-'' @ value s
         = interval_string (interval t) @ ''-'' @ kind_string (kind t) @ ''-'' @ value t"
  shows "interval s = interval t \<and> kind s = kind t \<and> value s = value t"
proof -
  from assms have "interval_string (interval s) @ CHR ''-'' # (kind_string (kind s) @ CHR ''-'' # value s)
         = interval_string (interval t) @ CHR ''-'' # (kind_string (kind t) @ CHR ''-'' # value t)"
    by simp
  from interval_key_inject [OF this] have i: "interval s = interval t"
    and "kind_string (kind s) @ CHR ''-'' # value s = kind_string (kind t) @ CHR ''-'' # value t"
    by simp_all
  from kind_key_inject [OF this(2)] i show ?thesis by simp
qed

section \<open>Facts about the generator\<close>

subsection \<open>Rounding\<close>

lemma round_half_even_of_int [simp]: "round_half_even (of_int m) = m"
  by (simp add: round_half_even_def)

lemma round_half_even_nonneg: "0 \<le> q \<Longrightarrow> 0 \<le> round_half_even q"
  by (auto simp: round_half_even_def Let_def)

lemma round_half_even_below:
  assumes "q < of_int N - 1 / 2"
  shows "round_half_even q < N"
proof -
  have "\<lfloor>q\<rfloor> < N" using assms by (simp add: floor_less_iff)
  then have "\<lfloor>q\<rfloor> \<le> N - 2 \<or> \<lfloor>q\<rfloor> = N - 1" by linarith
  then show ?thesis
  proof
    assume "\<lfloor>q\<rfloor> \<le> N - 2"
    then show ?thesis by (auto simp: round_half_even_def Let_def)
  next
    assume f: "\<lfloor>q\<rfloor> = N - 1"
    then have "q - of_int \<lfloor>q\<rfloor> < 1 / 2" using assms by simp
    then show ?thesis using f by (simp add: round_half_even_def Let_def)
  qed
qed

lemma double_exponent_eq:
  assumes "2 powi k \<le> \<bar>x\<bar>" and "\<bar>x\<bar> < 2 powi (k + 1)" and "- 1022 \<le> k"
  shows "double_exponent x = k"
proof -
  have "(0::real) < 2 powi k" by simp
  with assms(1) have pos: "0 < \<bar>x\<bar>" by linarith
  have p: "(2::real) powr real_of_int j = 2 powi j" for j :: int
    by (rule powr_real_of_int') simp_all
  have p1: "(2::real) powr (real_of_int k + 1) = 2 powi (k + 1)"
    using p [of "k + 1"] by simp
  have "\<lfloor>log 2 \<bar>x\<bar>\<rfloor> = k"
    using assms(1,2) pos floor_log_eq_powr_iff [of "\<bar>x\<bar>" 2 k] by (simp add: p p1)
  with assms(3) show ?thesis by (simp add: double_exponent_def)
qed

lemma fl_0 [simp]: "fl 0 = 0"
  by (simp add: fl_def)

lemma powi_less_imp_less: "(2::real) powi a < 2 powi b \<Longrightarrow> a < b"
proof (rule ccontr)
  assume lt: "(2::real) powi a < 2 powi b" and "\<not> a < b"
  then have "b \<le> a" by simp
  then have "(2::real) powi b \<le> 2 powi a" by (intro power_int_increasing) simp_all
  with lt show False by simp
qed

lemma floor_log2_bounds:
  assumes "0 < y"
  shows "2 powi \<lfloor>log 2 y\<rfloor> \<le> y \<and> y < 2 powi (\<lfloor>log 2 y\<rfloor> + 1)"
proof -
  have p: "(2::real) powr real_of_int j = 2 powi j" for j :: int
    by (rule powr_real_of_int') simp_all
  have p1: "(2::real) powr (real_of_int j + 1) = 2 powi (j + 1)" for j :: int
    using p [of "j + 1"] by simp
  from floor_log_eq_powr_iff [of y 2 "\<lfloor>log 2 y\<rfloor>"] assms show ?thesis
    by (simp add: p p1)
qed

text \<open>The exponent of a non-zero number: its binade, or the least one.\<close>

lemma double_exponent_cases:
  assumes "x \<noteq> 0"
  shows "(2 powi double_exponent x \<le> \<bar>x\<bar> \<or> double_exponent x = - 1022)
    \<and> \<bar>x\<bar> < 2 powi (double_exponent x + 1) \<and> - 1022 \<le> double_exponent x"
proof -
  let ?L = "\<lfloor>log 2 \<bar>x\<bar>\<rfloor>"
  from assms have pos: "0 < \<bar>x\<bar>" by simp
  note b = floor_log2_bounds [OF pos]
  show ?thesis
  proof (cases "- 1022 \<le> ?L")
    case True
    then have "double_exponent x = ?L" unfolding double_exponent_def by linarith
    with b True show ?thesis by simp
  next
    case False
    then have e: "double_exponent x = - 1022" unfolding double_exponent_def by linarith
    from False have "?L + 1 \<le> - 1022 + 1" by linarith
    then have "(2::real) powi (?L + 1) \<le> 2 powi (- 1022 + 1)"
      by (intro power_int_increasing) simp_all
    with b have "\<bar>x\<bar> < 2 powi (- 1022 + 1)" by linarith
    with e show ?thesis by simp
  qed
qed

lemma fl_dyadic:
  assumes "\<bar>m\<bar> < 2 ^ 53" and "- 1074 \<le> e"
  shows "fl (of_int m * 2 powi e) = of_int m * 2 powi e"
proof (cases "m = 0")
  case True
  then show ?thesis by simp
next
  case False
  let ?x = "of_int m * (2::real) powi e"
  let ?E = "double_exponent ?x"
  from False have nz: "?x \<noteq> 0" by simp
  note c = double_exponent_cases [OF nz]
  have ax: "\<bar>?x\<bar> = of_int \<bar>m\<bar> * 2 powi e" by (simp add: abs_mult)
  have "of_int \<bar>m\<bar> < (2::real) ^ 53" using assms(1) by (metis of_int_less_iff of_int_numeral of_int_power)
  then have "\<bar>?x\<bar> < 2 ^ 53 * 2 powi e" unfolding ax by (intro mult_strict_right_mono) simp_all
  also have "\<dots> = 2 powi (e + 53)" by (simp add: power_int_add)
  finally have up: "\<bar>?x\<bar> < 2 powi (e + 53)" .
  have "?E \<le> e + 52"
  proof (cases "?E = - 1022")
    case True
    with assms(2) show ?thesis by simp
  next
    case False
    with c have "2 powi ?E \<le> \<bar>?x\<bar>" by blast
    with up have "(2::real) powi ?E < 2 powi (e + 53)" by linarith
    then have "?E < e + 53" by (rule powi_less_imp_less)
    then show ?thesis by simp
  qed
  then obtain d where d: "e + 52 - ?E = int d" using nonneg_int_cases [of "e + 52 - ?E"] by auto
  have "(2::real) powi e / 2 powi (?E - 52) = 2 powi (e - (?E - 52))"
    by (simp add: power_int_diff)
  also have "e - (?E - 52) = int d" using d by simp
  finally have ratio: "(2::real) powi e / 2 powi (?E - 52) = 2 ^ d" by simp
  have "?x / ulp ?x = of_int m * (2 powi e / 2 powi (?E - 52))" by (simp add: ulp_def)
  also have "\<dots> = of_int (m * 2 ^ d)" by (simp add: ratio)
  finally have q: "?x / ulp ?x = of_int (m * 2 ^ d)" .
  have "fl ?x = of_int (m * 2 ^ d) * ulp ?x"
    using nz by (simp only: fl_def q round_half_even_of_int if_False)
  also have "\<dots> = ?x / ulp ?x * ulp ?x" by (simp only: q)
  also have "\<dots> = ?x" by (simp add: ulp_def)
  finally show ?thesis .
qed

lemma fl_of_int: "\<bar>m\<bar> < 2 ^ 53 \<Longrightarrow> fl (of_int m) = of_int m"
  using fl_dyadic [of m 0] by simp

lemma fl_numeral [simp]: "numeral n < (2::int) ^ 53 \<Longrightarrow> fl (numeral n) = numeral n"
  using fl_of_int [of "numeral n"] by simp

lemma fl_1 [simp]: "fl 1 = 1"
  using fl_of_int [of 1] by simp

lemma fl_eval:
  assumes "2 powi k \<le> \<bar>x\<bar>" and "\<bar>x\<bar> < 2 powi (k + 1)" and "- 1022 \<le> k"
  shows "fl x = of_int (round_half_even (x / 2 powi (k - 52))) * 2 powi (k - 52)"
proof -
  have "(0::real) < 2 powi k" by simp
  with assms(1) have "0 < \<bar>x\<bar>" by linarith
  then have "x \<noteq> 0" by simp
  then show ?thesis
    by (simp add: fl_def ulp_def double_exponent_eq [OF assms])
qed

lemma double_below_one:
  assumes "fl r = r" and "0 \<le> r" and "r < 1"
  shows "r \<le> 1 - 2 powi (- 53)"
proof (cases "r < 1 / 2")
  case True
  have "(2::real) powi (- 53) \<le> 2 powi (- 1)" by (intro power_int_increasing) simp_all
  with True show ?thesis by simp
next
  case False
  then have lo: "2 powi (- 1) \<le> \<bar>r\<bar>" by simp
  have hi: "\<bar>r\<bar> < 2 powi (- 1 + 1)" using assms(2,3) by simp
  define M where "M = round_half_even (r / 2 powi (- 1 - 52))"
  have "fl r = of_int M * 2 powi (- 1 - 52)"
    unfolding M_def by (rule fl_eval [OF lo hi]) simp
  with assms(1) have r: "r = of_int M * 2 powi (- 53)" by simp
  have "of_int M * 2 powi (- 53) < (1::real)" using assms(3) unfolding r .
  then have "(of_int M :: real) < 9007199254740992" by (simp add: power_int_minus field_simps)
  then have "M < 9007199254740992" by linarith
  then have "M \<le> 9007199254740991" by simp
  then have "(of_int M :: real) \<le> 9007199254740991" by linarith
  then have "of_int M * 2 powi (- 53) \<le> (1::real) - 2 powi (- 53)"
    by (simp add: power_int_minus field_simps)
  then show ?thesis unfolding r .
qed

lemma scaled_draw_index:
  assumes r: "fl r = r" "0 \<le> r" "r < 1" and n: "0 < n" "n < 2 ^ 53"
  shows "0 \<le> \<lfloor>fl (r * real n)\<rfloor> \<and> \<lfloor>fl (r * real n)\<rfloor> < int n"
proof (cases "r = 0")
  case True
  with n show ?thesis by simp
next
  case False
  let ?x = "r * real n"
  let ?E = "double_exponent ?x"
  from False r n have xpos: "0 < ?x" by simp
  have nz: "?x \<noteq> 0" using False n(1) by simp
  have xlt: "?x < real n" using r(3) n(1) by simp
  note c = double_exponent_cases [OF nz]
  have En: "2 powi ?E < real n"
  proof (cases "?E = - 1022")
    case True
    have "(2::real) powi (- 1022) < 2 powi 0" by (intro power_int_strict_increasing) simp_all
    then have "(2::real) powi (- 1022) < 1" by simp
    also have "1 \<le> real n" using n(1) by simp
    finally show ?thesis using True by simp
  next
    case False
    with c have "2 powi ?E \<le> \<bar>?x\<bar>" by blast
    with xpos xlt show ?thesis by simp
  qed
  have "real n < 2 ^ 53" using n(2) by (metis of_nat_less_iff of_nat_numeral of_nat_power)
  then have "real n < 2 powi 53" by simp
  with En have "(2::real) powi ?E < 2 powi 53" by linarith
  then have "?E < 53" by (rule powi_less_imp_less)
  then obtain d where d: "52 - ?E = int d" using nonneg_int_cases [of "52 - ?E"] by auto
  have upos: "0 < ulp ?x" by (simp add: ulp_def)
  have inv: "1 / ulp ?x = 2 ^ d"
  proof -
    have "1 / ulp ?x = inverse (2 powi (?E - 52))" by (simp add: ulp_def inverse_eq_divide)
    also have "\<dots> = 2 powi (- (?E - 52))" by (simp only: power_int_minus)
    also have "- (?E - 52) = int d" using d by simp
    finally show ?thesis by simp
  qed
  define N :: int where "N = int n * 2 ^ d"
  have N: "real n / ulp ?x = of_int N"
    using inv by (simp add: N_def divide_inverse)
  have "2 powi ?E / ulp ?x < real n / ulp ?x"
    using En upos by (simp only: divide_strict_right_mono)
  moreover have "2 powi ?E / ulp ?x = 2 powi 52"
    by (simp add: ulp_def flip: power_int_diff)
  ultimately have Nbig: "2 ^ 52 < (of_int N :: real)" using N by simp
  have q: "?x / ulp ?x = r * of_int N" using N by (simp add: divide_inverse mult.assoc)
  have "r * of_int N \<le> (1 - 2 powi (- 53)) * of_int N"
    using double_below_one [OF r] Nbig by (intro mult_right_mono) simp_all
  also have "\<dots> = of_int N - of_int N * 2 powi (- 53)" by (simp add: algebra_simps)
  also have "\<dots> < of_int N - 1 / 2"
  proof -
    have "(2 ^ 52 :: real) * 2 powi (- 53) < of_int N * 2 powi (- 53)"
      using Nbig by (simp only: mult_less_cancel_right_pos zero_less_power_int zero_less_numeral)
    moreover have "(2 ^ 52 :: real) * 2 powi (- 53) = 1 / 2" by (simp add: power_int_minus_divide)
    ultimately show ?thesis by simp
  qed
  finally have "?x / ulp ?x < of_int N - 1 / 2" using q by simp
  then have lt: "round_half_even (?x / ulp ?x) < N" by (rule round_half_even_below)
  have ge: "0 \<le> round_half_even (?x / ulp ?x)"
    using xpos upos by (intro round_half_even_nonneg) simp
  have flx: "fl ?x = of_int (round_half_even (?x / ulp ?x)) * ulp ?x"
    using nz by (simp add: fl_def)
  have "0 \<le> fl ?x" unfolding flx using ge upos by simp
  moreover have "fl ?x < real n"
  proof -
    have "of_int (round_half_even (?x / ulp ?x)) * ulp ?x < of_int N * ulp ?x"
      using lt upos by simp
    also have "of_int N * ulp ?x = real n" using N upos by (simp add: field_simps)
    finally show ?thesis unfolding flx .
  qed
  ultimately show ?thesis by (simp add: floor_less_iff)
qed

lemma top_draw_is_double: "fl (1 - 2 powi (- 53)) = 1 - 2 powi (- 53)"
proof -
  have "(1 - 2 powi (- 53) :: real) = of_int (2 ^ 53 - 1) * 2 powi (- 53)"
    by (simp add: power_int_minus algebra_simps)
  moreover have "fl (of_int (2 ^ 53 - 1) * 2 powi (- 53)) = of_int (2 ^ 53 - 1) * 2 powi (- 53)"
    by (rule fl_dyadic) simp_all
  ultimately show ?thesis by simp
qed

lemma top_draw_doubled: "fl ((1 - 2 powi (- 53)) * 2) = 2 - 2 powi (- 52)"
proof -
  have e: "((1 - 2 powi (- 53)) * 2 :: real) = of_int (2 ^ 53 - 1) * 2 powi (- 52)"
    by (simp add: power_int_minus algebra_simps)
  have "fl (of_int (2 ^ 53 - 1) * 2 powi (- 52)) = of_int (2 ^ 53 - 1) * 2 powi (- 52)"
    by (rule fl_dyadic) simp_all
  then have "fl ((1 - 2 powi (- 53)) * 2) = (1 - 2 powi (- 53)) * 2" by (simp only: e)
  then show ?thesis by (simp add: power_int_minus algebra_simps)
qed

lemma top_sum_rounds_up: "fl (2 - 2 powi (- 52) + 1) = 3"
proof -
  let ?x = "2 - 2 powi (- 52) + 1 :: real"
  have lo: "2 powi 1 \<le> \<bar>?x\<bar>" by (simp add: power_int_minus)
  have hi: "\<bar>?x\<bar> < 2 powi (1 + 1)" by (simp add: power_int_minus)
  have q: "?x / 2 powi (1 - 52) = 13510798882111487 / 2"
    by (simp add: power_int_minus)
  have "round_half_even (13510798882111487 / 2) = 6755399441055744"
    by (simp add: round_half_even_def Let_def)
  with fl_eval [OF lo hi] q have "fl ?x = 6755399441055744 * 2 powi (1 - 52)" by simp
  then show ?thesis by (simp add: power_int_minus)
qed

lemma fl_neg_numeral [simp]: "numeral n < (2::int) ^ 53 \<Longrightarrow> fl (- numeral n) = - numeral n"
  using fl_of_int [of "- numeral n"] by simp

lemma fl_quarters [simp]: "numeral n < (2::int) ^ 53 \<Longrightarrow> fl (numeral n / 4) = numeral n / 4"
  using fl_dyadic [of "numeral n" "- 2"] by (simp add: power_int_minus field_simps)

lemma fl_quarter [simp]: "fl (1 / 4) = 1 / 4"
  using fl_dyadic [of 1 "- 2"] by (simp add: power_int_minus field_simps)

subsection \<open>The draws\<close>

lemma random_draws_tail: "random_draws g \<Longrightarrow> random_draws (\<lambda>n. g (Suc n))"
  by (simp add: random_draws_def)

lemma randomChoice_in_range:
  assumes "arr \<noteq> []" and "length arr < 2 ^ 53" and "random_draws g"
  shows "\<exists>x. randomChoice arr g = (Some x, \<lambda>n. g (Suc n)) \<and> x \<in> set arr"
proof -
  let ?i = "\<lfloor>fl (g 0 * real (length arr))\<rfloor>"
  from assms(3) have r: "fl (g 0) = g 0" "0 \<le> g 0" "g 0 < 1" by (simp_all add: random_draws_def)
  from assms(1) have len: "0 < length arr" by simp
  from scaled_draw_index [OF r len assms(2)] have "0 \<le> ?i" and "nat ?i < length arr" by linarith+
  then show ?thesis by (simp add: randomChoice_def Math_random_def)
qed

lemma randomFloatInRange_draws: "snd (randomFloatInRange lo hi g) = (\<lambda>n. g (Suc n))"
  by (simp add: randomFloatInRange_def Math_random_def)

lemma randomIntegerInRange_draws: "snd (randomIntegerInRange lo hi g) = (\<lambda>n. g (Suc n))"
  by (simp add: randomIntegerInRange_def randomFloatInRange_def Math_random_def)

lemma randomPointInCity_draws: "snd (randomPointInCity city g) = (\<lambda>n. g (Suc (Suc n)))"
  by (simp add: randomPointInCity_def randomFloatInRange_def Math_random_def Let_def split_beta)

lemma randomFloatInRange_point:
  assumes "fl c = c"
  shows "randomFloatInRange c c g = (c, \<lambda>n. g (Suc n))"
  using assms by (simp add: randomFloatInRange_def Math_random_def)

lemma randomPointInCity_zero:
  assumes "diameter city = 0"
    and "fl (fst (lonlat city)) = fst (lonlat city)" and "fl (snd (lonlat city)) = snd (lonlat city)"
  shows "randomPointInCity city g = (lonlat city, \<lambda>n. g (Suc (Suc n)))"
  using assms
  by (simp add: randomPointInCity_def Let_def split_beta randomFloatInRange_point)

lemma Array_from_length:
  "Array_from n f g = (Some xs, g') \<Longrightarrow> length xs = n"
proof (induction n arbitrary: g xs)
  case 0
  then show ?case by simp
next
  case (Suc n)
  then show ?case by (auto split: prod.splits option.splits)
qed

lemma Array_from_returns:
  assumes f: "\<And>g. random_draws g \<Longrightarrow> \<exists>x g'. f g = (Some x, g') \<and> random_draws g' \<and> P x"
    and "random_draws g"
  shows "\<exists>xs g'. Array_from n f g = (Some xs, g') \<and> random_draws g' \<and> length xs = n
    \<and> (\<forall>x \<in> set xs. P x)"
  using assms(2)
proof (induction n arbitrary: g)
  case 0
  then show ?case by simp
next
  case (Suc n)
  from f [OF Suc.prems] obtain x g1 where x: "f g = (Some x, g1)" "random_draws g1" "P x"
    by blast
  from Suc.IH [OF x(2)] obtain xs g2 where xs: "Array_from n f g1 = (Some xs, g2)"
    "random_draws g2" "length xs = n" "\<forall>x \<in> set xs. P x" by blast
  from x xs show ?case by simp
qed

lemma olc_code_shape_take:
  assumes "olc_code_shape n code" and "n \<le> 8"
  shows "length (take n code) = n \<and> set (take n code) \<subseteq> set olc_alphabet
    \<and> CHR ''+'' \<notin> set (take n code) \<and> CHR ''0'' \<notin> set (take n code)"
proof -
  from assms(1) have d: "drop 8 code = ''+''" and a: "set (take n code) \<subseteq> set olc_alphabet"
    by (simp_all add: olc_code_shape_def)
  from d have "length (drop 8 code) = 1" by simp
  then have "length code = 9" by simp
  with assms(2) have "length (take n code) = n" by simp
  moreover have "CHR ''+'' \<notin> set olc_alphabet" "CHR ''0'' \<notin> set olc_alphabet"
    by (simp_all add: olc_alphabet_def)
  ultimately show ?thesis using a by blast
qed

subsection \<open>The generator returns when its collaborators do\<close>

lemma randomSegment_returns:
  assumes g: "random_draws g" and v: "VENDORS \<noteq> []" "length VENDORS < 2 ^ 53"
    and ext: "\<And>g'. externals_return encode decode (fst (randomPointInCity city g'))"
  shows "\<exists>s g'. randomSegment VENDORS encode city g = (Some s, g') \<and> random_draws g'"
proof -
  let ?g1 = "\<lambda>n. g (Suc n)"
  let ?g2 = "\<lambda>n. g (Suc (Suc n))"
  let ?g3 = "\<lambda>n. g (Suc (Suc (Suc n)))"
  let ?g4 = "\<lambda>n. g (Suc (Suc (Suc (Suc n))))"
  have d1: "random_draws ?g1" using g by (rule random_draws_tail)
  have d2: "random_draws ?g2" using random_draws_tail [OF d1] .
  have d3: "random_draws ?g3" using random_draws_tail [OF d2] .
  have d4: "random_draws ?g4" using random_draws_tail [OF d3] .
  obtain k where k: "randomSegmentKind g = (Some k, ?g1)"
    using randomChoice_in_range [of SegmentKinds g] g
    by (auto simp: SegmentKinds_def randomSegmentKind_def)
  obtain i where i: "randomSegmentInterval ?g1 = (Some i, ?g2)"
    using randomChoice_in_range [of SegmentIntervals ?g1] d1
    by (auto simp: SegmentIntervals_def randomSegmentInterval_def)
  obtain w where w: "randomVendor VENDORS ?g2 = (Some w, ?g3)"
    using randomChoice_in_range [OF v d2] by (auto simp: randomVendor_def)
  obtain lon lat where p: "randomPointInCity city ?g2 = ((lon, lat), ?g4)"
    using randomPointInCity_draws [of city ?g2]
    by (cases "randomPointInCity city ?g2") auto
  from ext [of ?g2] p obtain c6 c8 where c: "encode lat lon 6 = Some c6" "encode lat lon 8 = Some c8"
    by (auto simp: externals_return_def)
  show ?thesis
  proof (cases k)
    case olc_8
    then show ?thesis using d4 by (simp add: randomSegment_def k i p c)
  next
    case olc_6
    then show ?thesis using d4 by (simp add: randomSegment_def k i p c)
  next
    case purchase
    then show ?thesis using d3 by (simp add: randomSegment_def k i w)
  next
    case request
    then show ?thesis using d3 by (simp add: randomSegment_def k i w)
  qed
qed

lemma randomIntegerInRange_returns:
  "\<exists>n. randomIntegerInRange lo hi g = (n, \<lambda>n. g (Suc n))"
  using randomIntegerInRange_draws [of lo hi g]
  by (cases "randomIntegerInRange lo hi g") auto

lemma randomOffer_returns:
  assumes g: "random_draws g" and v: "VENDORS \<noteq> []" "length VENDORS < 2 ^ 53"
    and ext: "\<And>g'. externals_return encode decode (fst (randomPointInCity city g'))"
  shows "\<exists>offer g'. randomOffer VENDORS encode decode boundsToWKTPolygon city g = (Some offer, g')
    \<and> random_draws g'"
proof -
  obtain n where n: "randomIntegerInRange 1 3 g = (n, \<lambda>n. g (Suc n))"
    using randomIntegerInRange_returns by blast
  have d1: "random_draws (\<lambda>n. g (Suc n))" using g by (rule random_draws_tail)
  have "\<exists>xs g'. Array_from (nat n) (randomSegment VENDORS encode city) (\<lambda>n. g (Suc n)) = (Some xs, g')
      \<and> random_draws g' \<and> length xs = nat n \<and> (\<forall>x \<in> set xs. True)"
    by (rule Array_from_returns [OF _ d1]) (simp add: randomSegment_returns [OF _ v ext])
  then obtain segs g2 where segs:
    "Array_from (nat n) (randomSegment VENDORS encode city) (\<lambda>n. g (Suc n)) = (Some segs, g2)"
    and d2: "random_draws g2" by blast
  let ?g3 = "\<lambda>n. g2 (Suc n)"
  let ?g4 = "\<lambda>n. g2 (Suc (Suc n))"
  let ?g5 = "\<lambda>n. g2 (Suc (Suc (Suc n)))"
  let ?g6 = "\<lambda>n. g2 (Suc (Suc (Suc (Suc (Suc n)))))"
  let ?g7 = "\<lambda>n. g2 (Suc (Suc (Suc (Suc (Suc (Suc n))))))"
  let ?g8 = "\<lambda>n. g2 (Suc (Suc (Suc (Suc (Suc (Suc (Suc n)))))))"
  have d6: "random_draws ?g6" and d8: "random_draws ?g8"
    using d2 by (simp_all add: random_draws_def)
  obtain w where w: "randomVendor VENDORS g2 = (Some w, ?g3)"
    using randomChoice_in_range [OF v d2] by (auto simp: randomVendor_def)
  obtain pct where pct: "randomIntegerInRange 10 50 ?g3 = (pct, ?g4)"
    using randomIntegerInRange_returns by blast
  obtain oid where oid: "randomIntegerInRange 1 1000 ?g4 = (oid, ?g5)"
    using randomIntegerInRange_returns by blast
  obtain lon lat where p: "randomPointInCity city ?g5 = ((lon, lat), ?g6)"
    using randomPointInCity_draws [of city ?g5]
    by (cases "randomPointInCity city ?g5") auto
  obtain len where len: "randomChoice [8, 10 :: nat] ?g6 = (Some len, ?g7)" "len = 8 \<or> len = 10"
    using randomChoice_in_range [of "[8, 10 :: nat]" ?g6] d6 by auto
  from ext [of ?g5] p len(2) obtain code area where
    c: "encode lat lon len = Some code" "decode code = Some area"
    by (auto simp: externals_return_def)
  obtain bid where bid: "randomIntegerInRange 2 15 ?g7 = (bid, ?g8)"
    using randomIntegerInRange_returns by blast
  show ?thesis using d8
    by (simp add: randomOffer_def n segs w pct oid p len(1) c bid)
qed

lemma randomOffers_returns:
  assumes g: "random_draws g" and v: "VENDORS \<noteq> []" "length VENDORS < 2 ^ 53"
    and ext: "\<And>g'. externals_return encode decode (fst (randomPointInCity city g'))"
  shows "\<exists>offers g'.
    randomOffers VENDORS encode decode boundsToWKTPolygon city count g = (Some offers, g')
    \<and> length offers = count"
proof -
  have "\<exists>xs g'. Array_from count (randomOffer VENDORS encode decode boundsToWKTPolygon city) g
      = (Some xs, g') \<and> random_draws g' \<and> length xs = count \<and> (\<forall>x \<in> set xs. True)"
    by (rule Array_from_returns [OF _ g]) (simp add: randomOffer_returns [OF _ v ext])
  then show ?thesis by (auto simp: randomOffers_def)
qed

subsection \<open>The largest draw\<close>

lemma random_draws_top: "random_draws top_draws"
  using top_draw_is_double by (simp add: random_draws_def top_draws_def power_int_minus)

lemma random_draws_zero: "random_draws (\<lambda>n. 0)"
  by (simp add: random_draws_def)

lemma randomFloatInRange_top:
  assumes "g 0 = 1 - 2 powi (- 53)"
  shows "randomFloatInRange 1 3 g = (3, \<lambda>n. g (Suc n))"
proof -
  have m: "Math_random g = (1 - 2 powi (- 53), \<lambda>n. g (Suc n))"
    unfolding Math_random_def assms ..
  have d: "fl (3 - 1 :: real) = 2" by simp
  have "randomFloatInRange 1 3 g
      = (fl (fl ((1 - 2 powi (- 53)) * fl (3 - 1)) + 1), \<lambda>n. g (Suc n))"
    unfolding randomFloatInRange_def m Let_def by (simp only: case_prod_conv)
  also have "fl (fl ((1 - 2 powi (- 53)) * fl (3 - 1)) + 1) = 3"
    by (simp only: d top_draw_doubled top_sum_rounds_up)
  finally show ?thesis .
qed

lemma randomIntegerInRange_top:
  assumes "g 0 = 1 - 2 powi (- 53)"
  shows "randomIntegerInRange 1 3 g = (3, \<lambda>n. g (Suc n))"
proof -
  have "randomFloatInRange 1 3 g = (3, \<lambda>n. g (Suc n))"
    by (rule randomFloatInRange_top) (rule assms)
  then show ?thesis by (simp add: randomIntegerInRange_def)
qed

lemma top_draws_tail: "(\<lambda>n. top_draws (Suc n)) = (\<lambda>n. 0)"
  by (simp add: top_draws_def)

lemma randomOffer_top_draw:
  assumes "g 0 = 1 - 2 powi (- 53)"
    and "randomOffer VENDORS encode decode boundsToWKTPolygon city g = (Some offer, g')"
  shows "length (segments offer) = 3"
proof -
  have n: "randomIntegerInRange 1 3 g = (3, \<lambda>n. g (Suc n))"
    by (rule randomIntegerInRange_top) (rule assms(1))
  from assms(2) obtain segs g2 where
    segs: "Array_from (nat 3) (randomSegment VENDORS encode city) (\<lambda>n. g (Suc n)) = (Some segs, g2)"
    and "segments offer = segs"
    by (auto simp: randomOffer_def n Let_def split: prod.splits option.splits)
  with Array_from_length [OF segs] show ?thesis by simp
qed

lemma randomChoice_zero: "arr \<noteq> [] \<Longrightarrow> randomChoice arr (\<lambda>n. 0) = (Some (arr ! 0), \<lambda>n. 0)"
  by (simp add: randomChoice_def Math_random_def)

lemma randomIntegerInRange_zero:
  "fl (numeral k) = numeral k \<Longrightarrow> randomIntegerInRange (numeral k) hi (\<lambda>n. 0) = (numeral k, \<lambda>n. 0)"
  by (simp add: randomIntegerInRange_def randomFloatInRange_def Math_random_def)

lemma randomIntegerInRange_zero_1: "randomIntegerInRange 1 hi (\<lambda>n. 0) = (1, \<lambda>n. 0)"
  by (simp add: randomIntegerInRange_def randomFloatInRange_def Math_random_def)

lemma randomPointInCity_zero_draws:
  "\<exists>lon lat. randomPointInCity city (\<lambda>n. 0) = ((lon, lat), \<lambda>n. 0)"
  using randomPointInCity_draws [of city "\<lambda>n. 0"]
  by (cases "randomPointInCity city (\<lambda>n. 0)") auto

lemma randomSegment_zero:
  "randomSegment sample_vendors sample_encoder city (\<lambda>n. 0)
     = (Some \<lparr>interval = minute, kind = olc_8, value = ''87G8Q2JM''\<rparr>, \<lambda>n. 0)"
proof -
  obtain lon lat where p: "randomPointInCity city (\<lambda>n. 0) = ((lon, lat), \<lambda>n. 0)"
    using randomPointInCity_zero_draws by blast
  show ?thesis
    by (simp add: randomSegment_def randomSegmentKind_def randomSegmentInterval_def
        randomChoice_zero SegmentKinds_def SegmentIntervals_def p sample_encoder_def)
qed

lemma randomOffer_top:
  "randomOffer sample_vendors sample_encoder sample_decoder sample_wkt city top_draws
     = (Some \<lparr>segments = replicate 3 \<lparr>interval = minute, kind = olc_8, value = ''87G8Q2JM''\<rparr>,
              notificationZone = ''POLYGON((-74 40.75, -74 40.875, -73.875 40.875, -73.875 40.75, -74 40.75))'',
              notificationContent = ''10% off at Acme'',
              notificationTarget = ''https://acme.com/s2cellular?offerId=1'',
              maximumBidCents = 2\<rparr>, \<lambda>n. 0)"
proof -
  obtain lon lat where p: "randomPointInCity city (\<lambda>n. 0) = ((lon, lat), \<lambda>n. 0)"
    using randomPointInCity_zero_draws by blast
  have segs: "Array_from 3 (randomSegment sample_vendors sample_encoder city) (\<lambda>n. 0)
      = (Some (replicate 3 \<lparr>interval = minute, kind = olc_8, value = ''87G8Q2JM''\<rparr>), \<lambda>n. 0)"
    by (simp add: numeral_3_eq_3 randomSegment_zero)
  have v: "randomVendor sample_vendors (\<lambda>n. 0) = (Some \<lparr>vendor = ''Acme'', tld = ''com''\<rparr>, \<lambda>n. 0)"
    by (simp add: randomVendor_def randomChoice_zero sample_vendors_def)
  have len: "randomChoice [8, 10 :: nat] (\<lambda>n. 0) = (Some 8, \<lambda>n. 0)"
    by (simp add: randomChoice_zero)
  have dom: "vendorDomain \<lparr>vendor = ''Acme'', tld = ''com''\<rparr> = ''acme.com''"
    by code_simp
  have top: "top_draws 0 = 1 - 2 powi (- 53)" by (simp add: top_draws_def)
  have n: "randomIntegerInRange 1 3 top_draws = (3, \<lambda>n. 0)"
    using randomIntegerInRange_top [of top_draws, OF top] by (simp only: top_draws_tail)
  have s10: "int_string 10 = ''10''" and s1: "int_string 1 = ''1''"
    by code_simp+
  show ?thesis
    by (simp add: randomOffer_def n segs v len dom s10 s1 p
        randomIntegerInRange_zero randomIntegerInRange_zero_1 sample_encoder_def
        sample_decoder_def sample_wkt_def)
qed

subsection \<open>Where the points of a segment and of an offer come from\<close>

lemma randomChoice_member: "randomChoice arr g = (Some x, g') \<Longrightarrow> x \<in> set arr"
  by (auto simp: randomChoice_def Math_random_def Let_def split: if_splits)

lemma randomSegment_olc_point:
  assumes "randomSegment VENDORS encode city g = (Some s, g')"
    and "kind s = olc_8 \<or> kind s = olc_6"
  shows "\<exists>g2 lon lat code. fst (randomPointInCity city g2) = (lon, lat)
    \<and> encode lat lon (if kind s = olc_8 then 8 else 6) = Some code
    \<and> value s = take (if kind s = olc_8 then 8 else 6) code"
proof -
  obtain ko g1 where ko: "randomSegmentKind g = (ko, g1)"
    by (cases "randomSegmentKind g")
  obtain io g2 where io: "randomSegmentInterval g1 = (io, g2)"
    by (cases "randomSegmentInterval g1")
  from assms(1) ko io obtain k i where ki: "ko = Some k" "io = Some i"
    by (cases ko; cases io) (simp_all add: randomSegment_def)
  obtain lon lat g3 where p: "randomPointInCity city g2 = ((lon, lat), g3)"
    by (cases "randomPointInCity city g2") auto
  then have fp: "fst (randomPointInCity city g2) = (lon, lat)" by simp
  show ?thesis
  proof (cases k)
    case olc_8
    with assms(1) ko io ki p obtain code where "encode lat lon 8 = Some code"
      and "s = \<lparr>interval = i, kind = olc_8, value = take 8 code\<rparr>"
      by (auto simp: randomSegment_def split: option.splits)
    with fp show ?thesis by auto
  next
    case olc_6
    with assms(1) ko io ki p obtain code where "encode lat lon 6 = Some code"
      and "s = \<lparr>interval = i, kind = olc_6, value = take 6 code\<rparr>"
      by (auto simp: randomSegment_def split: option.splits)
    with fp show ?thesis by auto
  next
    case purchase
    with assms(1) ko io ki have "kind s = purchase"
      by (auto simp: randomSegment_def split: prod.splits option.splits)
    with assms(2) show ?thesis by simp
  next
    case request
    with assms(1) ko io ki have "kind s = request"
      by (auto simp: randomSegment_def split: prod.splits option.splits)
    with assms(2) show ?thesis by simp
  qed
qed

lemma randomOffer_zone:
  assumes "randomOffer VENDORS encode decode boundsToWKTPolygon city g = (Some offer, g')"
  shows "\<exists>g5 lon lat n code area. fst (randomPointInCity city g5) = (lon, lat)
    \<and> (n = 8 \<or> n = 10) \<and> encode lat lon n = Some code \<and> decode code = Some area
    \<and> notificationZone offer
        = boundsToWKTPolygon \<lparr>ne = (latitudeHi area, longitudeHi area),
                               sw = (latitudeLo area, longitudeLo area)\<rparr>"
proof -
  obtain n g1 where n: "randomIntegerInRange 1 3 g = (n, g1)"
    by (cases "randomIntegerInRange 1 3 g")
  from assms n obtain segs g2 where
    segs: "Array_from (nat n) (randomSegment VENDORS encode city) g1 = (Some segs, g2)"
    by (auto simp: randomOffer_def split: prod.splits option.splits)
  from assms n segs obtain w g3 where w: "randomVendor VENDORS g2 = (Some w, g3)"
    by (auto simp: randomOffer_def split: prod.splits option.splits)
  obtain pct g4 where pct: "randomIntegerInRange 10 50 g3 = (pct, g4)"
    by (cases "randomIntegerInRange 10 50 g3")
  obtain oid g5 where oid: "randomIntegerInRange 1 1000 g4 = (oid, g5)"
    by (cases "randomIntegerInRange 1 1000 g4")
  obtain lon lat g6 where p: "randomPointInCity city g5 = ((lon, lat), g6)"
    by (cases "randomPointInCity city g5") auto
  obtain lo g7 where lo: "randomChoice [8, 10 :: nat] g6 = (lo, g7)"
    by (cases "randomChoice [8, 10 :: nat] g6")
  obtain bid g8 where bid: "randomIntegerInRange 2 15 g7 = (bid, g8)"
    by (cases "randomIntegerInRange 2 15 g7")
  from assms obtain len code area where r: "lo = Some len" "encode lat lon len = Some code"
    "decode code = Some area"
    "notificationZone offer
        = boundsToWKTPolygon \<lparr>ne = (latitudeHi area, longitudeHi area),
                               sw = (latitudeLo area, longitudeLo area)\<rparr>"
    by (auto simp: randomOffer_def n segs w pct oid p lo bid split: option.splits)
  from lo r(1) have "len = 8 \<or> len = 10" using randomChoice_member [of "[8, 10]" g6 len g7] by simp
  moreover from p have "fst (randomPointInCity city g5) = (lon, lat)" by simp
  ultimately show ?thesis using r by blast
qed

section \<open>The claims\<close>

text \<open>
  C2. \<open>segmentId\<close> is a function of the triple (interval, kind, value): it returns the hash
  of the string interval, \<open>-\<close>, kind, \<open>-\<close>, value, whatever the hash function; two
  segments with the same triple get the same id, and two segments with different triples
  are hashed as different strings; and with the hash function of the package
  \<open>string-hash\<close> the id of every segment is a non-negative integer, below \<open>2^32\<close>.
\<close>

theorem segmentId_deterministic_nonneg:
  "segmentId stringHash s =
     stringHash (interval_string (interval s) @ ''-'' @ kind_string (kind s) @ ''-'' @ value s)
   \<and> (interval s = interval t \<and> kind s = kind t \<and> value s = value t
        \<longrightarrow> segmentId stringHash s = segmentId stringHash t)
   \<and> (interval_string (interval s) @ ''-'' @ kind_string (kind s) @ ''-'' @ value s
        = interval_string (interval t) @ ''-'' @ kind_string (kind t) @ ''-'' @ value t
        \<longrightarrow> interval s = interval t \<and> kind s = kind t \<and> value s = value t)
   \<and> 0 \<le> segmentId stringHash_package s \<and> segmentId stringHash_package s < 2 ^ 32"
proof -
  let ?key = "interval_string (interval s) @ ''-'' @ kind_string (kind s) @ ''-'' @ value s"
  let ?w = "foldr (\<lambda>c hash. xor (hash * 33) (word_of_nat (of_char c))) ?key (5381 :: 32 word)"
  have id: "segmentId stringHash_package s = uint ?w"
    by (simp add: segmentId_def stringHash_package_def)
  have "0 \<le> uint ?w" by simp
  moreover have "uint ?w < 2 ^ 32" using uint_lt2p [of ?w] by simp
  ultimately have "0 \<le> segmentId stringHash_package s \<and> segmentId stringHash_package s < 2 ^ 32"
    unfolding id by blast
  moreover have "segmentId stringHash s
      = stringHash (interval_string (interval s) @ ''-'' @ kind_string (kind s) @ ''-'' @ value s)"
    by (simp add: segmentId_def)
  moreover have "interval s = interval t \<and> kind s = kind t \<and> value s = value t
      \<longrightarrow> segmentId stringHash s = segmentId stringHash t"
    by (simp add: segmentId_def)
  moreover have "interval_string (interval s) @ ''-'' @ kind_string (kind s) @ ''-'' @ value s
        = interval_string (interval t) @ ''-'' @ kind_string (kind t) @ ''-'' @ value t
        \<longrightarrow> interval s = interval t \<and> kind s = kind t \<and> value s = value t"
    using segment_key_inject [of s t] by blast
  ultimately show ?thesis by (simp only: simp_thms)
qed

theorem segmentId_deterministic_nonneg_witness:
  "interval \<lparr>interval = day, kind = purchase, value = ''Acme''\<rparr>
     = interval (\<lparr>interval = day, kind = request, value = ''Acme''\<rparr>\<lparr>kind := purchase\<rparr>)
   \<and> segmentId stringHash_package \<lparr>interval = day, kind = purchase, value = ''Acme''\<rparr>
       = stringHash_package ''day-purchase-Acme''
   \<and> segmentId stringHash_package (\<lparr>interval = day, kind = request, value = ''Acme''\<rparr>\<lparr>kind := purchase\<rparr>)
       = 1473484216
   \<and> segmentId stringHash_package \<lparr>interval = day, kind = purchase, value = ''Acme''\<rparr> = 1473484216
   \<and> segmentId stringHash_package \<lparr>interval = hour, kind = olc_6, value = ''87G8Q2''\<rparr> = 2587041567"
  using segmentId_deterministic_nonneg [of stringHash_package
      "\<lparr>interval = day, kind = purchase, value = ''Acme''\<rparr>"
      "\<lparr>interval = day, kind = request, value = ''Acme''\<rparr>\<lparr>kind := purchase\<rparr>"]
  by (simp add: segmentId_def stringHash_package_def)
text \<open>
  C1. When \<open>createOffers\<close> completes (no write fails), the statements issued alternate
  between an offers statement and a segments statement, the number of these flushes is
  \<open>ceil(N / 500)\<close> for \<open>N\<close> offers, and the offers statements carry \<open>N\<close> rows in total,
  counted in their parameters as well as in their text. For no offers the call completes
  and nothing is issued at all, whatever the database.
\<close>

theorem createOffers_batching:
  "(fst (createOffers stringHash db offers customerId) = Inr () \<longrightarrow>
      paired (map fst (snd (snd (createOffers stringHash db offers customerId))))
    \<and> length (writes_to ''offers'' (snd (snd (createOffers stringHash db offers customerId))))
         = (length offers + 499) div 500
    \<and> length (writes_to ''segments'' (snd (snd (createOffers stringHash db offers customerId))))
         = (length offers + 499) div 500
    \<and> int (length (writes_to ''offers'' (snd (snd (createOffers stringHash db offers customerId)))))
         = \<lceil>real (length offers) / 500\<rceil>
    \<and> length (concat (map call_rows
           (writes_to ''offers'' (snd (snd (createOffers stringHash db offers customerId))))))
         = length offers
    \<and> sum_list (map (row_count \<circ> call_sql)
           (writes_to ''offers'' (snd (snd (createOffers stringHash db offers customerId)))))
         = length offers)
   \<and> fst (createOffers stringHash db [] customerId) = Inr ()
   \<and> snd (snd (createOffers stringHash db [] customerId)) = []"
proof -
  have empty: "createOffers stringHash db [] customerId
      = (Inr (), state_of stringHash (customerId_of customerId) [], [])"
    by (simp add: createOffers_refines outcome_of_def)
  have "fst (createOffers stringHash db offers customerId) = Inr () \<longrightarrow>
      paired (map fst (snd (snd (createOffers stringHash db offers customerId))))
    \<and> length (writes_to ''offers'' (snd (snd (createOffers stringHash db offers customerId))))
         = (length offers + 499) div 500
    \<and> length (writes_to ''segments'' (snd (snd (createOffers stringHash db offers customerId))))
         = (length offers + 499) div 500
    \<and> int (length (writes_to ''offers'' (snd (snd (createOffers stringHash db offers customerId)))))
         = \<lceil>real (length offers) / 500\<rceil>
    \<and> length (concat (map call_rows
           (writes_to ''offers'' (snd (snd (createOffers stringHash db offers customerId))))))
         = length offers
    \<and> sum_list (map (row_count \<circ> call_sql)
           (writes_to ''offers'' (snd (snd (createOffers stringHash db offers customerId)))))
         = length offers"
  proof
    assume ok: "fst (createOffers stringHash db offers customerId) = Inr ()"
    obtain r st tr where run: "createOffers stringHash db offers customerId = (r, st, tr)"
      by (cases "createOffers stringHash db offers customerId")
    let ?B = "batches MAX_OFFERS_PER_BATCH offers"
    let ?cid = "customerId_of customerId"
    from ok run have "r = Inr ()" by simp
    with createOffers_trace [OF run]
    have calls: "map fst tr = concat (map (flush_calls stringHash ?cid) ?B)"
      by auto
    have w1: "writes_to ''offers'' tr = map (offers_call stringHash ?cid) ?B"
      by (rule writes_to_offers [OF calls])
    have w2: "writes_to ''segments'' tr
        = map (\<lambda>b. segments_call stringHash (concat (map segments b))) ?B"
      by (rule writes_to_segments [OF calls])
    have "paired (map fst tr)" by (simp only: calls paired_flush_calls)
    moreover have "length (writes_to ''offers'' tr) = (length offers + 499) div 500"
      by (simp add: w1 length_batches_500)
    moreover have "length (writes_to ''segments'' tr) = (length offers + 499) div 500"
      by (simp add: w2 length_batches_500)
    moreover have "int (length (writes_to ''offers'' tr)) = \<lceil>real (length offers) / 500\<rceil>"
      by (simp only: w1 length_map length_batches_500 ceiling_batches)
    moreover have "length (concat (map call_rows (writes_to ''offers'' tr))) = length offers"
      by (simp only: w1 rows_offers_calls concat_batches_500 length_map)
    moreover have "sum_list (map (row_count \<circ> call_sql) (writes_to ''offers'' tr)) = length offers"
      by (simp only: w1 row_count_offers_calls concat_batches_500)
    ultimately show "paired (map fst (snd (snd (createOffers stringHash db offers customerId))))
      \<and> length (writes_to ''offers'' (snd (snd (createOffers stringHash db offers customerId))))
           = (length offers + 499) div 500
      \<and> length (writes_to ''segments'' (snd (snd (createOffers stringHash db offers customerId))))
           = (length offers + 499) div 500
      \<and> int (length (writes_to ''offers'' (snd (snd (createOffers stringHash db offers customerId)))))
           = \<lceil>real (length offers) / 500\<rceil>
      \<and> length (concat (map call_rows
             (writes_to ''offers'' (snd (snd (createOffers stringHash db offers customerId))))))
           = length offers
      \<and> sum_list (map (row_count \<circ> call_sql)
             (writes_to ''offers'' (snd (snd (createOffers stringHash db offers customerId)))))
           = length offers"
      unfolding run snd_conv by blast
  qed
  moreover from empty have "fst (createOffers stringHash db [] customerId) = Inr ()"
    and "snd (snd (createOffers stringHash db [] customerId)) = []"
    by simp_all
  ultimately show ?thesis by blast
qed

theorem createOffers_batching_witness:
  "fst (createOffers code_sum_hash accept_all (replicate 1200 offerA) None) = Inr ()
   \<and> paired (map fst (snd (snd (createOffers code_sum_hash accept_all (replicate 1200 offerA) None))))
   \<and> length (writes_to ''offers''
        (snd (snd (createOffers code_sum_hash accept_all (replicate 1200 offerA) None)))) = 3
   \<and> length (writes_to ''segments''
        (snd (snd (createOffers code_sum_hash accept_all (replicate 1200 offerA) None)))) = 3
   \<and> length (concat (map call_rows (writes_to ''offers''
        (snd (snd (createOffers code_sum_hash accept_all (replicate 1200 offerA) None)))))) = 1200"
  using createOffers_batching [of code_sum_hash accept_all "replicate 1200 offerA" None]
    createOffers_accept_all [of code_sum_hash "replicate 1200 offerA" None]
  by simp

text \<open>
  C3, as stated, fails: the two writes of a flush are separate statements, and nothing
  undoes the one that succeeded when the other fails. Against a database that accepts the
  offers statement and rejects the segments statement, the offers rows are written without
  their segments.
\<close>

theorem createOffers_partial_commit:
  "fst (createOffers code_sum_hash accept_offers_only [offerA] None) = Inl StatementError
   \<and> committed ''offers'' (snd (snd (createOffers code_sum_hash accept_offers_only [offerA] None)))
        = [offers_call code_sum_hash 0 [offerA]]
   \<and> committed ''segments'' (snd (snd (createOffers code_sum_hash accept_offers_only [offerA] None)))
        = []"
  by (simp add: createOffers_refines customerId_of_def DEFAULT_CUSTOMER_ID_def
      MAX_OFFERS_PER_BATCH_def batches_short outcome_of_def Let_def accept_offers_only_def
      committed_def offers_call_def segments_call_def)

text \<open>
  C3, amended. Every flush issues both statements, the offers statement of a batch first
  and then the segments statement for exactly the segments of that batch's offers, whatever
  the outcome of the first; the flushes are those of the consecutive batches of 500 offers;
  every flush before the last one succeeded in both writes; and the call succeeds if and
  only if every write succeeded.
\<close>

theorem createOffers_flushes:
  assumes "createOffers stringHash db offers customerId = (r, st, tr)"
  shows "length tr div 2 \<le> length (batches MAX_OFFERS_PER_BATCH offers)
    \<and> map fst tr = concat (map
          (\<lambda>batch. [offers_call stringHash (customerId_of customerId) batch,
                    segments_call stringHash (concat (map segments batch))])
          (take (length tr div 2) (batches MAX_OFFERS_PER_BATCH offers)))
    \<and> list_all snd (butlast (butlast tr))
    \<and> (r = Inr () \<longleftrightarrow> list_all snd tr)"
proof -
  let ?B = "batches MAX_OFFERS_PER_BATCH offers"
  from createOffers_trace [OF assms] obtain m where
    m: "m \<le> length ?B"
       "map fst tr = concat (map (flush_calls stringHash (customerId_of customerId)) (take m ?B))"
       "list_all snd (butlast (butlast tr))"
       "r = Inr () \<longrightarrow> list_all snd tr"
       "r \<noteq> Inr () \<longrightarrow> \<not> list_all snd tr"
    by blast
  have "length tr = length (map fst tr)" by simp
  also have "\<dots> = 2 * length (take m ?B)"
    by (simp only: m(2) length_flush_calls)
  finally have "length tr div 2 = m" using m(1) by simp
  moreover have "flush_calls stringHash (customerId_of customerId)
      = (\<lambda>batch. [offers_call stringHash (customerId_of customerId) batch,
                    segments_call stringHash (concat (map segments batch))])"
    by (rule ext) (simp add: flush_calls_def)
  ultimately show ?thesis using m by auto
qed

theorem createOffers_flushes_witness:
  "createOffers code_sum_hash accept_offers_only [offerA, offerB] (Some 7)
     = (Inl StatementError, state_of code_sum_hash 7 [offerA, offerB],
        [(offers_call code_sum_hash 7 [offerA, offerB], True),
         (segments_call code_sum_hash [segment1, segment2, segment2, segment3], False)])
   \<and> batches MAX_OFFERS_PER_BATCH [offerA, offerB] = [[offerA, offerB]]
   \<and> \<not> list_all snd [(offers_call code_sum_hash 7 [offerA, offerB], True),
         (segments_call code_sum_hash [segment1, segment2, segment2, segment3], False)]"
proof -
  have run: "createOffers code_sum_hash accept_offers_only [offerA, offerB] (Some 7)
     = (Inl StatementError, state_of code_sum_hash 7 [offerA, offerB],
        [(offers_call code_sum_hash 7 [offerA, offerB], True),
         (segments_call code_sum_hash [segment1, segment2, segment2, segment3], False)])"
    by (simp add: createOffers_refines customerId_of_def
      MAX_OFFERS_PER_BATCH_def batches_short outcome_of_def Let_def accept_offers_only_def
      offers_call_def segments_call_def offerA_def offerB_def)
  from createOffers_flushes [OF run] show ?thesis
    using run by (simp add: MAX_OFFERS_PER_BATCH_def batches_short)
qed

text \<open>
  C4. The third value of an offers row is the \<open>segment_ids\<close> column. Parsing the JSON
  string stored there gives, for the i-th offers row written by \<open>createOffers\<close>, the
  list of the segment ids of the i-th offer, in the order of the offer's segments; when
  the call completes there is one such row for every offer.
\<close>

theorem createOffers_segment_ids_roundtrip:
  "offers_columns ! 2 = ''segment_ids''
   \<and> map segment_ids_column (concat (map call_rows
         (writes_to ''offers'' (snd (snd (createOffers stringHash db offers customerId))))))
     = map (\<lambda>offer. Some (map (segmentId stringHash) (segments offer)))
         (take (length (concat (map call_rows
            (writes_to ''offers'' (snd (snd (createOffers stringHash db offers customerId)))))))
          offers)
   \<and> (fst (createOffers stringHash db offers customerId) = Inr () \<longrightarrow>
        length (concat (map call_rows
          (writes_to ''offers'' (snd (snd (createOffers stringHash db offers customerId))))))
        = length offers)"
proof -
  obtain r st tr where run: "createOffers stringHash db offers customerId = (r, st, tr)"
    by (cases "createOffers stringHash db offers customerId")
  let ?B = "batches MAX_OFFERS_PER_BATCH offers"
  let ?cid = "customerId_of customerId"
  let ?rows = "concat (map call_rows (writes_to ''offers'' tr))"
  from createOffers_trace [OF run] obtain m where
    m: "map fst tr = concat (map (flush_calls stringHash ?cid) (take m ?B))"
       "r = Inr () \<longrightarrow> m = length ?B"
    by blast
  have rows: "?rows = map (offer_values stringHash ?cid) (take (m * MAX_OFFERS_PER_BATCH) offers)"
    by (simp only: offers_rows_trace [OF m(1)] concat_take_batches)
  have tk: "take (length ?rows) offers = take (m * MAX_OFFERS_PER_BATCH) offers"
    by (simp add: rows min_def)
  have "map segment_ids_column ?rows
      = map (\<lambda>offer. Some (map (segmentId stringHash) (segments offer))) (take (length ?rows) offers)"
    unfolding tk by (simp add: rows segment_ids_column_offer_values o_def)
  moreover have "r = Inr () \<longrightarrow> length ?rows = length offers"
  proof
    assume "r = Inr ()"
    with m have "map fst tr = concat (map (flush_calls stringHash ?cid) ?B)" by simp
    from offers_rows_trace [OF this] show "length ?rows = length offers"
      by (simp only: concat_batches_500 length_map)
  qed
  moreover have "offers_columns ! 2 = ''segment_ids''" by (simp add: offers_columns_def)
  ultimately show ?thesis unfolding run fst_conv snd_conv by blast
qed

theorem createOffers_segment_ids_roundtrip_witness:
  "fst (createOffers code_sum_hash accept_all [offerA, offerB] None) = Inr ()
   \<and> map (\<lambda>row. row ! 2) (concat (map call_rows
         (writes_to ''offers'' (snd (snd (createOffers code_sum_hash accept_all [offerA, offerB] None))))))
     = [Str ''[1641,1525]'', Str ''[1525,2066]'']
   \<and> map segment_ids_column (concat (map call_rows
         (writes_to ''offers'' (snd (snd (createOffers code_sum_hash accept_all [offerA, offerB] None))))))
     = [Some [1641, 1525], Some [1525, 2066]]"
proof -
  have ids: "segmentId code_sum_hash segment1 = 1641" "segmentId code_sum_hash segment2 = 1525"
    "segmentId code_sum_hash segment3 = 2066"
    by (simp_all add: segmentId_def code_sum_hash_def segment1_def segment2_def segment3_def)
  have strs: "JSON_stringify [1641, 1525] = ''[1641,1525]''" "JSON_stringify [1525, 2066] = ''[1525,2066]''"
    by code_simp+
  have ok: "fst (createOffers code_sum_hash accept_all [offerA, offerB] None) = Inr ()"
    by (rule createOffers_accept_all)
  from createOffers_segment_ids_roundtrip [of code_sum_hash accept_all "[offerA, offerB]" None] ok
  show ?thesis
    by (simp add: createOffers_accept_all_rows offer_values_def ids strs offerA_def offerB_def)
qed

text \<open>
  C5, as stated, fails: the segments of the offers of a batch are concatenated and every
  one of them is appended to the segments statement, so a segment referenced by two offers
  is written twice in the same statement, not once.
\<close>

theorem createOffers_shared_segment_twice:
  "map call_rows (writes_to ''segments''
       (snd (snd (createOffers code_sum_hash accept_all [offerA, offerB] None))))
     = [[segment_values code_sum_hash segment1, segment_values code_sum_hash segment2,
         segment_values code_sum_hash segment2, segment_values code_sum_hash segment3]]
   \<and> count_list (concat (map call_rows (writes_to ''segments''
       (snd (snd (createOffers code_sum_hash accept_all [offerA, offerB] None))))))
       (segment_values code_sum_hash segment2) = 2"
proof -
  have tr: "snd (snd (createOffers code_sum_hash accept_all [offerA, offerB] None))
    = [(offers_call code_sum_hash 0 [offerA, offerB], True),
       (segments_call code_sum_hash [segment1, segment2, segment2, segment3], True)]"
    by (simp add: createOffers_refines customerId_of_def DEFAULT_CUSTOMER_ID_def
      MAX_OFFERS_PER_BATCH_def batches_short outcome_of_def Let_def accept_all_def
      offerA_def offerB_def)
  have w: "writes_to ''segments'' (snd (snd (createOffers code_sum_hash accept_all [offerA, offerB] None)))
    = [segments_call code_sum_hash [segment1, segment2, segment2, segment3]]"
    unfolding tr by (simp add: writes_to_def offers_call_def segments_call_def)
  have ne: "segment_values code_sum_hash segment1 \<noteq> segment_values code_sum_hash segment2"
       "segment_values code_sum_hash segment3 \<noteq> segment_values code_sum_hash segment2"
    by (simp_all add: segment_values_def segment1_def segment2_def segment3_def)
  show ?thesis
    unfolding w using ne by (simp add: call_rows_segments_call)
qed

text \<open>
  C5, amended. If offer A has segments \<open>[s1, s2]\<close> and offer B has \<open>[s2, s3]\<close>, the one flush
  of \<open>createOffers\<close> on \<open>[A, B]\<close> issues a segments statement with the four rows of
  \<open>s1, s2, s2, s3\<close>, in this order; no check for repeated ids is made before the write.
  Applied with replace-on-conflict semantics, these rows leave one row for each of the
  three ids, and the row of \<open>s2\<close> for its id unless \<open>s3\<close> has the same id.
\<close>

theorem createOffers_shared_segment:
  assumes "segments A = [s1, s2]" and "segments B = [s2, s3]"
  shows "map fst (snd (snd (createOffers stringHash db [A, B] customerId)))
      = [offers_call stringHash (customerId_of customerId) [A, B],
         segments_call stringHash [s1, s2, s2, s3]]
    \<and> map call_rows (writes_to ''segments'' (snd (snd (createOffers stringHash db [A, B] customerId))))
      = [[segment_values stringHash s1, segment_values stringHash s2,
          segment_values stringHash s2, segment_values stringHash s3]]
    \<and> dom (replace_into Map.empty
          [segment_values stringHash s1, segment_values stringHash s2,
           segment_values stringHash s2, segment_values stringHash s3])
      = {Num (segmentId stringHash s1), Num (segmentId stringHash s2),
         Num (segmentId stringHash s3)}
    \<and> (segmentId stringHash s2 \<noteq> segmentId stringHash s3 \<longrightarrow>
         replace_into Map.empty
          [segment_values stringHash s1, segment_values stringHash s2,
           segment_values stringHash s2, segment_values stringHash s3]
          (Num (segmentId stringHash s2)) = Some (segment_values stringHash s2))"
proof -
  obtain r st tr where run: "createOffers stringHash db [A, B] customerId = (r, st, tr)"
    by (cases "createOffers stringHash db [A, B] customerId")
  let ?cid = "customerId_of customerId"
  have B: "batches MAX_OFFERS_PER_BATCH [A, B] = [[A, B]]"
    by (simp add: batches_short MAX_OFFERS_PER_BATCH_def)
  from createOffers_trace [OF run] obtain m where
    m: "m \<le> 1" "map fst tr = concat (map (flush_calls stringHash ?cid) (take m [[A, B]]))"
       "r = Inr () \<longrightarrow> m = 1" "r \<noteq> Inr () \<longrightarrow> 0 < m"
    unfolding B by auto
  then have "m = 1" by (cases "r = Inr ()") auto
  with m(2) have calls: "map fst tr = concat (map (flush_calls stringHash ?cid) [[A, B]])"
    by simp
  have segs: "concat (map segments [A, B]) = [s1, s2, s2, s3]"
    using assms by simp
  have "map fst tr = [offers_call stringHash ?cid [A, B],
         segments_call stringHash [s1, s2, s2, s3]]"
    using calls segs by (simp add: flush_calls_def)
  moreover have "map call_rows (writes_to ''segments'' tr)
      = [[segment_values stringHash s1, segment_values stringHash s2,
          segment_values stringHash s2, segment_values stringHash s3]]"
    using segs by (simp add: writes_to_segments [OF calls] call_rows_segments_call)
  moreover have "dom (replace_into Map.empty
          [segment_values stringHash s1, segment_values stringHash s2,
           segment_values stringHash s2, segment_values stringHash s3])
      = {Num (segmentId stringHash s1), Num (segmentId stringHash s2),
         Num (segmentId stringHash s3)}"
    by (auto simp: replace_into_def segment_values_def)
  moreover have "segmentId stringHash s2 \<noteq> segmentId stringHash s3 \<longrightarrow>
         replace_into Map.empty
          [segment_values stringHash s1, segment_values stringHash s2,
           segment_values stringHash s2, segment_values stringHash s3]
          (Num (segmentId stringHash s2)) = Some (segment_values stringHash s2)"
    by (simp add: replace_into_def segment_values_def)
  ultimately show ?thesis unfolding run snd_conv by blast
qed

theorem createOffers_shared_segment_witness:
  "segments offerA = [segment1, segment2] \<and> segments offerB = [segment2, segment3]
   \<and> segmentId code_sum_hash segment2 \<noteq> segmentId code_sum_hash segment3
   \<and> map fst (snd (snd (createOffers code_sum_hash accept_all [offerA, offerB] None)))
      = [offers_call code_sum_hash 0 [offerA, offerB],
         segments_call code_sum_hash [segment1, segment2, segment2, segment3]]
   \<and> replace_into Map.empty
          [segment_values code_sum_hash segment1, segment_values code_sum_hash segment2,
           segment_values code_sum_hash segment2, segment_values code_sum_hash segment3]
          (Num (segmentId code_sum_hash segment2)) = Some (segment_values code_sum_hash segment2)"
proof -
  have a: "segments offerA = [segment1, segment2]" by (simp add: offerA_def)
  have b: "segments offerB = [segment2, segment3]" by (simp add: offerB_def)
  have c: "segmentId code_sum_hash segment2 \<noteq> segmentId code_sum_hash segment3"
    by (simp add: segmentId_def code_sum_hash_def segment2_def segment3_def)
  from createOffers_shared_segment [OF a b, of code_sum_hash accept_all None] a b c
  show ?thesis by (simp add: customerId_of_def DEFAULT_CUSTOMER_ID_def)
qed

text \<open>
  C6. \<open>randomOffers(city, count)\<close> returns a list of exactly \<open>count\<close> offers
  whenever it returns, but the segments of an offer are not always 1 or 2: when
  \<open>Math.random()\<close> returns the largest double below 1, \<open>1 - 2^-53\<close>, to the first call
  of \<open>randomOffer\<close>, the sum \<open>(1 - 2^-53) * (3 - 1) + 1\<close> is rounded to \<open>3\<close>, so that
  \<open>randomIntegerInRange(1, 3)\<close> is 3 and the first offer has 3 segments, for every city,
  catalogue, encoder and decoder.
\<close>

theorem randomOffers_top_draw:
  assumes "g 0 = 1 - 2 powi (- 53)" and "0 < count"
    and "randomOffers VENDORS encode decode boundsToWKTPolygon city count g = (Some offers, g')"
  shows "length offers = count \<and> length (segments (hd offers)) = 3"
proof -
  from assms(2) obtain m where m: "count = Suc m" by (cases count) auto
  from assms(3) have len: "length offers = count"
    unfolding randomOffers_def by (rule Array_from_length)
  from assms(3) obtain offer g1 rest where
    "randomOffer VENDORS encode decode boundsToWKTPolygon city g = (Some offer, g1)"
    and "offers = offer # rest"
    by (auto simp: randomOffers_def m split: prod.splits option.splits)
  with randomOffer_top_draw [of g, OF assms(1)] len show ?thesis by simp
qed

theorem randomOffers_top_draw_witness:
  "random_draws top_draws
   \<and> top_draws 0 = 1 - 2 powi (- 53) \<and> (0::nat) < 1
   \<and> randomOffers sample_vendors sample_encoder sample_decoder sample_wkt sample_city 1 top_draws
       = (Some [\<lparr>segments = [\<lparr>interval = minute, kind = olc_8, value = ''87G8Q2JM''\<rparr>,
                               \<lparr>interval = minute, kind = olc_8, value = ''87G8Q2JM''\<rparr>,
                               \<lparr>interval = minute, kind = olc_8, value = ''87G8Q2JM''\<rparr>],
                  notificationZone = ''POLYGON((-74 40.75, -74 40.875, -73.875 40.875, -73.875 40.75, -74 40.75))'',
                  notificationContent = ''10% off at Acme'',
                  notificationTarget = ''https://acme.com/s2cellular?offerId=1'',
                  maximumBidCents = 2\<rparr>], \<lambda>n. 0)
   \<and> length [\<lparr>interval = minute, kind = olc_8, value = ''87G8Q2JM''\<rparr>,
               \<lparr>interval = minute, kind = olc_8, value = ''87G8Q2JM''\<rparr>,
               \<lparr>interval = minute, kind = olc_8, value = ''87G8Q2JM''\<rparr>] = 3"
proof -
  have draws: "random_draws top_draws" by (rule random_draws_top)
  have top: "top_draws 0 = 1 - 2 powi (- 53)" by (simp add: top_draws_def)
  have run: "randomOffers sample_vendors sample_encoder sample_decoder sample_wkt sample_city 1 top_draws
       = (Some [\<lparr>segments = [\<lparr>interval = minute, kind = olc_8, value = ''87G8Q2JM''\<rparr>,
                               \<lparr>interval = minute, kind = olc_8, value = ''87G8Q2JM''\<rparr>,
                               \<lparr>interval = minute, kind = olc_8, value = ''87G8Q2JM''\<rparr>],
                  notificationZone = ''POLYGON((-74 40.75, -74 40.875, -73.875 40.875, -73.875 40.75, -74 40.75))'',
                  notificationContent = ''10% off at Acme'',
                  notificationTarget = ''https://acme.com/s2cellular?offerId=1'',
                  maximumBidCents = 2\<rparr>], \<lambda>n. 0)"
    by (simp add: randomOffers_def randomOffer_top numeral_3_eq_3)
  from randomOffers_top_draw [of top_draws, OF top _ run] draws top run show ?thesis by simp
qed

text \<open>
  C7. The generator checks nothing of a city: for a city whose diameter is zero or
  negative, \<open>randomPointInCity\<close> returns a point and takes two draws, and \<open>randomSegment\<close>
  and \<open>randomOffer\<close> return a segment and an offer, provided the catalogue of vendors is
  not empty and the encoder and the decoder return at the points they are given. With a
  zero diameter every point drawn is the city center itself: the encoder and the decoder
  are then called at the center only, a segment of kind \<open>olc_8\<close> or \<open>olc_6\<close> holds the
  truncated code of the center, and the zone of the offer is that of a code of the center.
\<close>

theorem degenerate_city_returns:
  assumes "diameter city \<le> 0" and "finite_city city" and "random_draws g"
    and "VENDORS \<noteq> []" and "length VENDORS < 2 ^ 53"
    and "if diameter city = 0 then externals_return encode decode (lonlat city)
         else (\<forall>p. externals_return encode decode p)"
  shows "(diameter city = 0 \<longrightarrow> randomPointInCity city g = (lonlat city, \<lambda>n. g (Suc (Suc n))))
    \<and> (\<exists>p. randomPointInCity city g = (p, \<lambda>n. g (Suc (Suc n))))
    \<and> (\<exists>s g'. randomSegment VENDORS encode city g = (Some s, g')
          \<and> (diameter city = 0 \<and> (kind s = olc_8 \<or> kind s = olc_6) \<longrightarrow>
               (\<exists>code. encode (snd (lonlat city)) (fst (lonlat city)) (if kind s = olc_8 then 8 else 6)
                    = Some code
                  \<and> value s = take (if kind s = olc_8 then 8 else 6) code)))
    \<and> (\<exists>offer g'. randomOffer VENDORS encode decode boundsToWKTPolygon city g = (Some offer, g')
          \<and> (diameter city = 0 \<longrightarrow>
               (\<exists>n code area. (n = 8 \<or> n = 10)
                  \<and> encode (snd (lonlat city)) (fst (lonlat city)) n = Some code
                  \<and> decode code = Some area
                  \<and> notificationZone offer
                      = boundsToWKTPolygon \<lparr>ne = (latitudeHi area, longitudeHi area),
                                             sw = (latitudeLo area, longitudeLo area)\<rparr>)))"
proof -
  have center: "randomPointInCity city h = (lonlat city, \<lambda>n. h (Suc (Suc n)))"
    if "diameter city = 0" for h
    using that assms(2) by (intro randomPointInCity_zero) (simp_all add: finite_city_def)
  have ext: "externals_return encode decode (fst (randomPointInCity city h))" for h
  proof (cases "diameter city = 0")
    case True
    with assms(6) center [OF True, of h] show ?thesis by simp
  next
    case False
    with assms(6) have "\<forall>p. externals_return encode decode p" by auto
    then show ?thesis by blast
  qed
  have point: "\<exists>p. randomPointInCity city g = (p, \<lambda>n. g (Suc (Suc n)))"
    using randomPointInCity_draws [of city g] by (cases "randomPointInCity city g") auto
  from randomSegment_returns [OF assms(3,4,5) ext]
  obtain s g1 where s: "randomSegment VENDORS encode city g = (Some s, g1)" by blast
  have s_center: "\<exists>code. encode (snd (lonlat city)) (fst (lonlat city)) (if kind s = olc_8 then 8 else 6)
        = Some code \<and> value s = take (if kind s = olc_8 then 8 else 6) code"
    if "diameter city = 0" and "kind s = olc_8 \<or> kind s = olc_6"
  proof -
    from randomSegment_olc_point [OF s that(2)] obtain g2 lon lat code where
      "fst (randomPointInCity city g2) = (lon, lat)"
      "encode lat lon (if kind s = olc_8 then 8 else 6) = Some code"
      "value s = take (if kind s = olc_8 then 8 else 6) code" by blast
    moreover from this(1) center [OF that(1), of g2] have "lonlat city = (lon, lat)" by simp
    ultimately show ?thesis by simp
  qed
  from randomOffer_returns [OF assms(3,4,5) ext]
  obtain offer g2 where
    offer: "randomOffer VENDORS encode decode boundsToWKTPolygon city g = (Some offer, g2)"
    by blast
  have o_center: "\<exists>n code area. (n = 8 \<or> n = 10)
        \<and> encode (snd (lonlat city)) (fst (lonlat city)) n = Some code
        \<and> decode code = Some area
        \<and> notificationZone offer
            = boundsToWKTPolygon \<lparr>ne = (latitudeHi area, longitudeHi area),
                                   sw = (latitudeLo area, longitudeLo area)\<rparr>"
    if "diameter city = 0"
  proof -
    from randomOffer_zone [OF offer] obtain g5 lon lat n code area where z:
      "fst (randomPointInCity city g5) = (lon, lat)" "n = 8 \<or> n = 10"
      "encode lat lon n = Some code" "decode code = Some area"
      "notificationZone offer
        = boundsToWKTPolygon \<lparr>ne = (latitudeHi area, longitudeHi area),
                               sw = (latitudeLo area, longitudeLo area)\<rparr>" by blast
    from z(1) center [OF that, of g5] have "lonlat city = (lon, lat)" by simp
    with z show ?thesis by auto
  qed
  from center [of g] point s s_center offer o_center show ?thesis by blast
qed

theorem degenerate_city_returns_witness:
  "diameter (sample_city\<lparr>diameter := 0\<rparr>) \<le> 0 \<and> finite_city (sample_city\<lparr>diameter := 0\<rparr>)
   \<and> diameter (sample_city\<lparr>diameter := - (1 / 4)\<rparr>) \<le> 0
   \<and> finite_city (sample_city\<lparr>diameter := - (1 / 4)\<rparr>)
   \<and> random_draws (\<lambda>n. 1 / 4)
   \<and> sample_vendors \<noteq> [] \<and> length sample_vendors < 2 ^ 53
   \<and> (\<forall>p. externals_return sample_encoder sample_decoder p)
   \<and> randomPointInCity (sample_city\<lparr>diameter := 0\<rparr>) (\<lambda>n. 1 / 4) = ((- 74, 40.75), \<lambda>n. 1 / 4)
   \<and> (\<exists>s g'. randomSegment sample_vendors sample_encoder (sample_city\<lparr>diameter := 0\<rparr>) (\<lambda>n. 1 / 4)
         = (Some s, g'))
   \<and> (\<exists>offer g'. randomOffer sample_vendors sample_encoder sample_decoder sample_wkt
         (sample_city\<lparr>diameter := 0\<rparr>) (\<lambda>n. 1 / 4) = (Some offer, g'))
   \<and> (\<exists>s g'. randomSegment sample_vendors sample_encoder (sample_city\<lparr>diameter := - (1 / 4)\<rparr>)
         (\<lambda>n. 1 / 4) = (Some s, g'))
   \<and> (\<exists>offer g'. randomOffer sample_vendors sample_encoder sample_decoder sample_wkt
         (sample_city\<lparr>diameter := - (1 / 4)\<rparr>) (\<lambda>n. 1 / 4) = (Some offer, g'))"
proof -
  have q: "fl (- (1 / 4)) = - (1 / 4)"
    using fl_dyadic [of "- 1" "- 2"] by (simp add: power_int_minus)
  have c0: "diameter (sample_city\<lparr>diameter := 0\<rparr>) \<le> 0" "diameter (sample_city\<lparr>diameter := 0\<rparr>) = 0"
    and c1: "diameter (sample_city\<lparr>diameter := - (1 / 4)\<rparr>) \<le> 0"
      "diameter (sample_city\<lparr>diameter := - (1 / 4)\<rparr>) \<noteq> 0"
    by simp_all
  have f0: "finite_city (sample_city\<lparr>diameter := 0\<rparr>)"
    and f1: "finite_city (sample_city\<lparr>diameter := - (1 / 4)\<rparr>)"
    by (simp_all add: finite_city_def sample_city_def q)
  have d: "random_draws (\<lambda>n. 1 / 4)" by (simp add: random_draws_def)
  have v: "sample_vendors \<noteq> []" "length sample_vendors < 2 ^ 53"
    by (simp_all add: sample_vendors_def)
  have e': "externals_return sample_encoder sample_decoder p" for p
    by (simp add: externals_return_def sample_encoder_def sample_decoder_def split_beta)
  then have e: "\<forall>p. externals_return sample_encoder sample_decoder p" by blast
  have e0: "if diameter (sample_city\<lparr>diameter := 0\<rparr>) = 0
      then externals_return sample_encoder sample_decoder (lonlat (sample_city\<lparr>diameter := 0\<rparr>))
      else (\<forall>p. externals_return sample_encoder sample_decoder p)"
    and e1: "if diameter (sample_city\<lparr>diameter := - (1 / 4)\<rparr>) = 0
      then externals_return sample_encoder sample_decoder (lonlat (sample_city\<lparr>diameter := - (1 / 4)\<rparr>))
      else (\<forall>p. externals_return sample_encoder sample_decoder p)"
    by (simp_all add: e')
  have l: "lonlat (sample_city\<lparr>diameter := 0\<rparr>) = (- 74, 40.75)" by (simp add: sample_city_def)
  from degenerate_city_returns [OF c0(1) f0 d v e0, of sample_wkt]
    degenerate_city_returns [OF c1(1) f1 d v e1, of sample_wkt]
    c0 c1 f0 f1 d v e l
  show ?thesis by (simp only: simp_thms) blast
qed

text \<open>
  C8. When \<open>createOffers\<close> is rejected, the variables are as they were when the failed
  flush began: that flush, started on the final variables, fails and leaves them as they
  are; the builder still holds the rows of the batch (it is not empty), the counter is the
  number of these rows, the pending segments are those of the batch's offers, and the last
  two statements of the trace are the ones built from these variables. A rejected
  \<open>commitBatch\<close> never changes the variables.
\<close>

theorem createOffers_rejected_keeps_batch:
  assumes "createOffers stringHash db offers customerId = (Inl e, st, tr)"
  shows "commitBatch stringHash db st (butlast (butlast tr)) = (Inl e, st, tr)
    \<and> tuples (stmt st) \<noteq> []
    \<and> numOffers st = length (tuples (stmt st))
    \<and> tuples (stmt st) = map (offer_values stringHash (customerId_of customerId))
          (batches MAX_OFFERS_PER_BATCH offers ! (length tr div 2 - 1))
    \<and> pendingSegments st
         = concat (map segments (batches MAX_OFFERS_PER_BATCH offers ! (length tr div 2 - 1)))
    \<and> map fst (drop (length tr - 2) tr)
         = [Exec_call (MultiReplace_sql (stmt st)) (MultiReplace_params (stmt st)),
            segments_call stringHash (pendingSegments st)]
    \<and> (\<forall>st0 tr0 e1 st1 tr1.
          commitBatch stringHash db st0 tr0 = (Inl e1, st1, tr1) \<longrightarrow> st1 = st0)"
proof -
  let ?B = "batches MAX_OFFERS_PER_BATCH offers"
  let ?cid = "customerId_of customerId"
  from createOffers_trace [OF assms] obtain m where
    m: "m \<le> length ?B" "0 < m"
       "map fst tr = concat (map (flush_calls stringHash ?cid) (take m ?B))"
       "st = state_of stringHash ?cid (?B ! (m - 1))"
       "commitBatch stringHash db st (butlast (butlast tr)) = (Inl e, st, tr)"
    by auto
  have "length tr = length (map fst tr)" by simp
  also have "\<dots> = 2 * length (take m ?B)"
    by (simp only: m(3) length_flush_calls)
  finally have len: "length tr = 2 * m" using m(1) by simp
  then have idx: "length tr div 2 - 1 = m - 1" by simp
  have "?B ! (m - 1) \<in> set ?B" using m(1,2) by simp
  then have ne: "?B ! (m - 1) \<noteq> []"
    by (rule batches_nonempty)
  have tk: "take m ?B = take (m - 1) ?B @ [?B ! (m - 1)]"
    using m(1,2) by (metis Suc_pred' Suc_le_lessD take_Suc_conv_app_nth)
  have "drop (length tr - 2) (map fst tr) = flush_calls stringHash ?cid (?B ! (m - 1))"
    using m(1,2) len by (simp add: m(3) tk length_flush_calls)
  then have last2: "map fst (drop (length tr - 2) tr)
      = flush_calls stringHash ?cid (?B ! (m - 1))"
    by (simp add: drop_map)
  define b where "b = ?B ! (length tr div 2 - 1)"
  have b: "b = ?B ! (m - 1)" by (simp only: b_def idx)
  have st: "st = state_of stringHash ?cid b" by (simp only: m(4) b)
  have "tuples (stmt st) \<noteq> []" using ne by (simp add: st b state_of_def)
  moreover have "numOffers st = length (tuples (stmt st))" by (simp add: st state_of_def)
  moreover have "tuples (stmt st) = map (offer_values stringHash ?cid) b"
    by (simp add: st state_of_def)
  moreover have "pendingSegments st = concat (map segments b)"
    by (simp add: st state_of_def)
  moreover have "map fst (drop (length tr - 2) tr)
         = [Exec_call (MultiReplace_sql (stmt st)) (MultiReplace_params (stmt st)),
            segments_call stringHash (pendingSegments st)]"
    using last2 by (simp add: st b state_of_def flush_calls_def offers_call_def
        MultiReplace_sql_def MultiReplace_params_def)
  moreover have "\<forall>st0 tr0 e1 st1 tr1.
          commitBatch stringHash db st0 tr0 = (Inl e1, st1, tr1) \<longrightarrow> st1 = st0"
    using commitBatch_rejected_state by blast
  ultimately show ?thesis using m(5) unfolding b_def by blast
qed

theorem createOffers_rejected_keeps_batch_witness:
  "createOffers code_sum_hash accept_offers_only [offerA, offerB] (Some 7)
     = (Inl StatementError, state_of code_sum_hash 7 [offerA, offerB],
        [(offers_call code_sum_hash 7 [offerA, offerB], True),
         (segments_call code_sum_hash [segment1, segment2, segment2, segment3], False)])
   \<and> commitBatch code_sum_hash accept_offers_only (state_of code_sum_hash 7 [offerA, offerB]) []
     = (Inl StatementError, state_of code_sum_hash 7 [offerA, offerB],
        [(offers_call code_sum_hash 7 [offerA, offerB], True),
         (segments_call code_sum_hash [segment1, segment2, segment2, segment3], False)])
   \<and> numOffers (state_of code_sum_hash 7 [offerA, offerB]) = 2
   \<and> tuples (stmt (state_of code_sum_hash 7 [offerA, offerB]))
       = [offer_values code_sum_hash 7 offerA, offer_values code_sum_hash 7 offerB]
   \<and> pendingSegments (state_of code_sum_hash 7 [offerA, offerB])
       = [segment1, segment2, segment2, segment3]"
proof -
  have run: "createOffers code_sum_hash accept_offers_only [offerA, offerB] (Some 7)
     = (Inl StatementError, state_of code_sum_hash 7 [offerA, offerB],
        [(offers_call code_sum_hash 7 [offerA, offerB], True),
         (segments_call code_sum_hash [segment1, segment2, segment2, segment3], False)])"
    by (simp add: createOffers_refines customerId_of_def
      MAX_OFFERS_PER_BATCH_def batches_short outcome_of_def Let_def accept_offers_only_def
      offers_call_def segments_call_def offerA_def offerB_def)
  from createOffers_rejected_keeps_batch [OF run]
  have "commitBatch code_sum_hash accept_offers_only (state_of code_sum_hash 7 [offerA, offerB])
      (butlast (butlast [(offers_call code_sum_hash 7 [offerA, offerB], True),
         (segments_call code_sum_hash [segment1, segment2, segment2, segment3], False)]))
     = (Inl StatementError, state_of code_sum_hash 7 [offerA, offerB],
        [(offers_call code_sum_hash 7 [offerA, offerB], True),
         (segments_call code_sum_hash [segment1, segment2, segment2, segment3], False)])"
    by (rule conjunct1)
  then have "commitBatch code_sum_hash accept_offers_only (state_of code_sum_hash 7 [offerA, offerB]) []
     = (Inl StatementError, state_of code_sum_hash 7 [offerA, offerB],
        [(offers_call code_sum_hash 7 [offerA, offerB], True),
         (segments_call code_sum_hash [segment1, segment2, segment2, segment3], False)])"
    by simp
  moreover have "numOffers (state_of code_sum_hash 7 [offerA, offerB]) = 2"
    by (simp add: state_of_def)
  moreover have "tuples (stmt (state_of code_sum_hash 7 [offerA, offerB]))
       = [offer_values code_sum_hash 7 offerA, offer_values code_sum_hash 7 offerB]"
    by (simp add: state_of_def)
  moreover have "pendingSegments (state_of code_sum_hash 7 [offerA, offerB])
       = [segment1, segment2, segment2, segment3]"
    by (simp add: state_of_def offerA_def offerB_def)
  ultimately show ?thesis using run by blast
qed

text \<open>
  C9. When \<open>createOffers\<close> is called without a customer id, every offers row it appends
  (the rows of every offers statement issued, and the rows still in the builder) has the
  default customer id, which is 0, as its first value, the \<open>customer_id\<close> column.
\<close>

theorem createOffers_default_customer:
  "DEFAULT_CUSTOMER_ID = 0
   \<and> (\<forall>row \<in> set (concat (map call_rows
           (writes_to ''offers'' (snd (snd (createOffers stringHash db offers None))))))
         \<union> set (tuples (stmt (fst (snd (createOffers stringHash db offers None))))).
        row ! 0 = Num DEFAULT_CUSTOMER_ID)"
proof -
  obtain r st tr where run: "createOffers stringHash db offers None = (r, st, tr)"
    by (cases "createOffers stringHash db offers None")
  let ?B = "batches MAX_OFFERS_PER_BATCH offers"
  have cid: "customerId_of None = DEFAULT_CUSTOMER_ID" by (simp add: customerId_of_def)
  from createOffers_trace [OF run] obtain m where
    m: "map fst tr = concat (map (flush_calls stringHash DEFAULT_CUSTOMER_ID) (take m ?B))"
       "r = Inr () \<longrightarrow> st = state_of stringHash DEFAULT_CUSTOMER_ID []"
       "r \<noteq> Inr () \<longrightarrow> st = state_of stringHash DEFAULT_CUSTOMER_ID (?B ! (m - 1))"
    unfolding cid by blast
  have rows: "concat (map call_rows (writes_to ''offers'' tr))
      = map (offer_values stringHash DEFAULT_CUSTOMER_ID) (concat (take m ?B))"
    by (rule offers_rows_trace [OF m(1)])
  obtain b where st: "st = state_of stringHash DEFAULT_CUSTOMER_ID b"
    using m(2,3) by blast
  have "\<forall>row \<in> set (concat (map call_rows (writes_to ''offers'' tr))). row ! 0 = Num DEFAULT_CUSTOMER_ID"
    unfolding rows by (auto simp: offer_values_customer)
  moreover have "\<forall>row \<in> set (tuples (stmt st)). row ! 0 = Num DEFAULT_CUSTOMER_ID"
    unfolding st by (auto simp: state_of_def offer_values_customer)
  ultimately show ?thesis
    unfolding run fst_conv snd_conv by (auto simp: DEFAULT_CUSTOMER_ID_def)
qed

theorem createOffers_default_customer_witness:
  "offer_values code_sum_hash 0 offerB
     \<in> set (concat (map call_rows
           (writes_to ''offers'' (snd (snd (createOffers code_sum_hash accept_all [offerA, offerB] None))))))
         \<union> set (tuples (stmt (fst (snd (createOffers code_sum_hash accept_all [offerA, offerB] None)))))
   \<and> offer_values code_sum_hash 0 offerB ! 0 = Num 0"
  using createOffers_default_customer [of code_sum_hash accept_all "[offerA, offerB]"]
  by (simp add: createOffers_accept_all_rows customerId_of_def DEFAULT_CUSTOMER_ID_def)

text \<open>
  C10. For an encoder that returns codes in the Open Location Code format, a segment
  produced by \<open>randomSegment\<close> with kind \<open>olc_8\<close> has as value the first 8 characters of
  the code, and with kind \<open>olc_6\<close> the first 6: exactly that many characters, none of
  them the separator \<open>+\<close> or the padding character \<open>0\<close>.
\<close>

theorem randomSegment_olc_value:
  assumes "randomSegment VENDORS encode city g = (Some s, g')"
    and "\<forall>lat lon code. (encode lat lon 8 = Some code \<longrightarrow> olc_code_shape 8 code)
           \<and> (encode lat lon 6 = Some code \<longrightarrow> olc_code_shape 6 code)"
  shows "(kind s = olc_8 \<longrightarrow>
            (\<exists>lat lon code. encode lat lon 8 = Some code \<and> value s = take 8 code)
            \<and> length (value s) = 8
            \<and> CHR ''+'' \<notin> set (value s) \<and> CHR ''0'' \<notin> set (value s))
       \<and> (kind s = olc_6 \<longrightarrow>
            (\<exists>lat lon code. encode lat lon 6 = Some code \<and> value s = take 6 code)
            \<and> length (value s) = 6
            \<and> CHR ''+'' \<notin> set (value s) \<and> CHR ''0'' \<notin> set (value s))"
proof -
  have "(\<exists>lat lon code. encode lat lon n = Some code \<and> value s = take n code)
      \<and> length (value s) = n \<and> CHR ''+'' \<notin> set (value s) \<and> CHR ''0'' \<notin> set (value s)"
    if k: "kind s = olc_8 \<or> kind s = olc_6" and n: "n = (if kind s = olc_8 then 8 else 6)" for n
  proof -
    from randomSegment_olc_point [OF assms(1) k] n obtain lon lat code where
      c: "encode lat lon n = Some code" "value s = take n code" by auto
    from k n have "n = 8 \<or> n = 6" by auto
    with c(1) assms(2) have "olc_code_shape n code" and "n \<le> 8" by auto
    from olc_code_shape_take [OF this] c show ?thesis by auto
  qed
  from this [of 8] this [of 6] show ?thesis by simp
qed

theorem randomSegment_olc_value_witness:
  "randomSegment sample_vendors sample_encoder sample_city (\<lambda>n. 1 / 4)
     = (Some \<lparr>interval = hour, kind = olc_6, value = ''87G8Q2''\<rparr>, \<lambda>n. 1 / 4)
   \<and> (\<forall>lat lon code. (sample_encoder lat lon 8 = Some code \<longrightarrow> olc_code_shape 8 code)
         \<and> (sample_encoder lat lon 6 = Some code \<longrightarrow> olc_code_shape 6 code))
   \<and> length ''87G8Q2'' = 6 \<and> CHR ''+'' \<notin> set ''87G8Q2'' \<and> CHR ''0'' \<notin> set ''87G8Q2''"
proof -
  obtain lon lat where p: "randomPointInCity sample_city (\<lambda>n. 1 / 4) = ((lon, lat), \<lambda>n. 1 / 4)"
    using randomPointInCity_draws [of sample_city "\<lambda>n. 1 / 4"]
    by (cases "randomPointInCity sample_city (\<lambda>n. 1 / 4)") auto
  have run: "randomSegment sample_vendors sample_encoder sample_city (\<lambda>n. 1 / 4)
     = (Some \<lparr>interval = hour, kind = olc_6, value = ''87G8Q2''\<rparr>, \<lambda>n. 1 / 4)"
    by (simp add: randomSegment_def randomSegmentKind_def randomSegmentInterval_def
        randomChoice_def Math_random_def SegmentKinds_def SegmentIntervals_def p
        sample_encoder_def)
  have shape: "\<forall>lat lon code. (sample_encoder lat lon 8 = Some code \<longrightarrow> olc_code_shape 8 code)
         \<and> (sample_encoder lat lon 6 = Some code \<longrightarrow> olc_code_shape 6 code)"
    by (auto simp: olc_code_shape_def sample_encoder_def olc_alphabet_def numeral_2_eq_2)
  from randomSegment_olc_value [OF run shape] run shape show ?thesis by simp
qed

end
